theory Spec2Isabelle
  imports Main "HOL-Library.Char_ord" "HOL-Library.List_Lexorder"
begin

section \<open>Desktop organizer: a shallow embedding of \<^verbatim>\<open>desktop_organizer.py\<close>\<close>

text \<open>
  Strings are \<^typ>\<open>string\<close> (lists of 8-bit characters), so the development speaks about
  ASCII names; Python's \<^verbatim>\<open>str.lower\<close> is modelled on the ASCII letters and leaves every
  other character alone.
\<close>

subsection \<open>Configuration\<close>

text \<open>
  \<^verbatim>\<open>FILE_CATEGORIES\<close> is a dict literal; Python dicts iterate in insertion order, so the
  table is an association list in the order of the source.
\<close>

definition FILE_CATEGORIES :: "(string \<times> string list) list" where
  "FILE_CATEGORIES =
    [(''Images'', [''.jpg'', ''.jpeg'', ''.png'', ''.gif'', ''.bmp'', ''.svg'', ''.ico'',
                   ''.tiff'', ''.webp'', ''.heic'']),
     (''PDFs'', [''.pdf'']),
     (''Documents'', [''.doc'', ''.docx'', ''.txt'', ''.rtf'', ''.odt'', ''.pages'', ''.tex'',
                      ''.md'', ''.csv'', ''.xlsx'', ''.xls'', ''.ppt'', ''.pptx'']),
     (''Videos'', [''.mp4'', ''.avi'', ''.mov'', ''.mkv'', ''.flv'', ''.wmv'', ''.webm'',
                   ''.m4v'']),
     (''Music'', [''.mp3'', ''.wav'', ''.flac'', ''.aac'', ''.ogg'', ''.wma'', ''.m4a'']),
     (''Archives'', [''.zip'', ''.tar'', ''.gz'', ''.rar'', ''.7z'', ''.bz2'', ''.xz'']),
     (''Others'', [])]"

definition IGNORED_FILES :: "string list" where
  "IGNORED_FILES = [''.DS_Store'', ''.localized'', ''desktop.ini'']"

subsection \<open>String helpers of the Python runtime\<close>

definition lower_char :: "char \<Rightarrow> char" where
  "lower_char c =
     (case map_of (zip ''ABCDEFGHIJKLMNOPQRSTUVWXYZ'' ''abcdefghijklmnopqrstuvwxyz'') c of
        Some d \<Rightarrow> d
      | None \<Rightarrow> c)"

definition lower :: "string \<Rightarrow> string" where
  "lower s = map lower_char s"

definition startswith :: "string \<Rightarrow> string \<Rightarrow> bool" where
  "startswith s p = (take (length p) s = p)"

text \<open>\<^verbatim>\<open>str(n)\<close> for a non-negative integer: its decimal digits, most significant first.\<close>

definition digit_char :: "nat \<Rightarrow> char" where
  "digit_char d = ''0123456789'' ! (d mod 10)"

fun str :: "nat \<Rightarrow> string" where
  "str n = (if n < 10 then [digit_char n] else str (n div 10) @ [digit_char (n mod 10)])"

declare str.simps [simp del]

text \<open>
  \<^verbatim>\<open>s.rfind('.')\<close>: the index of the last occurrence, \<open>None\<close> standing for Python's \<open>-1\<close>.
\<close>

fun rfind :: "char \<Rightarrow> string \<Rightarrow> nat option" where
  "rfind c [] = None"
| "rfind c (x # xs) =
     (case rfind c xs of
        Some i \<Rightarrow> Some (Suc i)
      | None \<Rightarrow> if x = c then Some 0 else None)"

text \<open>
  \<^verbatim>\<open>PurePath.suffix\<close> and \<^verbatim>\<open>PurePath.stem\<close> (CPython 3.4 to 3.13) of a path that consists
  of one component, which is what \<^verbatim>\<open>item.name\<close> of a directory entry always is:
  the last dot splits the name unless it is the first or the last character.
\<close>

definition suffix :: "string \<Rightarrow> string" where
  "suffix name =
     (case rfind CHR ''.'' name of
        None \<Rightarrow> []
      | Some i \<Rightarrow> if 0 < i \<and> i + 1 < length name then drop i name else [])"

definition stem :: "string \<Rightarrow> string" where
  "stem name =
     (case rfind CHR ''.'' name of
        None \<Rightarrow> name
      | Some i \<Rightarrow> if 0 < i \<and> i + 1 < length name then take i name else name)"


subsection \<open>Exceptions\<close>

text \<open>
  The exceptions that can be raised while the program runs. Only the one of
  \<^verbatim>\<open>shutil.move\<close> is raised inside the \<^verbatim>\<open>try\<close>; each of the others leaves
  \<^verbatim>\<open>organize_desktop\<close>.
\<close>

datatype error =
    NotADirectoryError
      \<comment> \<open>\<^verbatim>\<open>iterdir()\<close> on a desktop path that exists and cannot be listed\<close>
  | FileExistsError string
      \<comment> \<open>\<^verbatim>\<open>mkdir(exist_ok=True)\<close> on a name taken by something that is not a directory\<close>
  | PermissionError string
      \<comment> \<open>\<^verbatim>\<open>mkdir(exist_ok=True)\<close> of a new folder in a desktop that accepts none\<close>
  | OSError string
      \<comment> \<open>\<^verbatim>\<open>Path.exists()\<close> on a name the system cannot examine (longer than it allows, ...)\<close>
  | MoveError string
      \<comment> \<open>any exception of \<^verbatim>\<open>shutil.move\<close>, caught by \<^verbatim>\<open>except Exception\<close>\<close>


subsection \<open>Name resolver\<close>

text \<open>The f-string \<^verbatim>\<open>f"{name_stem}({counter}){extension}"\<close>.\<close>

definition candidate :: "string \<Rightarrow> string \<Rightarrow> nat \<Rightarrow> string" where
  "candidate name_stem extension counter =
     name_stem @ ''('' @ str counter @ '')'' @ extension"

lemma str_not_Nil: "str n \<noteq> []"
  by (subst str.simps) simp

lemma digit_char_inj: "a < 10 \<Longrightarrow> b < 10 \<Longrightarrow> digit_char a = digit_char b \<Longrightarrow> a = b"
proof -
  assume a: "a < 10" and b: "b < 10" and eq: "digit_char a = digit_char b"
  have d: "distinct ''0123456789''" by simp
  from a b eq have "''0123456789'' ! a = ''0123456789'' ! b"
    by (simp add: digit_char_def)
  with d a b show "a = b" by (simp add: nth_eq_iff_index_eq)
qed

lemma str_inj: "str n = str m \<Longrightarrow> n = m"
proof (induction n arbitrary: m rule: str.induct)
  case (1 n)
  show ?case
  proof (cases "n < 10")
    case small_n: True
    show ?thesis
    proof (cases "m < 10")
      case True
      with small_n "1.prems" have "digit_char n = digit_char m"
        by (simp add: str.simps [of n] str.simps [of m])
      with small_n True show ?thesis by (rule digit_char_inj)
    next
      case False
      with small_n "1.prems" have "str (m div 10) = []"
        by (simp add: str.simps [of n] str.simps [of m])
      then show ?thesis by (simp add: str_not_Nil)
    qed
  next
    case big_n: False
    show ?thesis
    proof (cases "m < 10")
      case True
      with big_n "1.prems" have "str (n div 10) = []"
        by (simp add: str.simps [of n] str.simps [of m])
      then show ?thesis by (simp add: str_not_Nil)
    next
      case False
      with big_n "1.prems"
      have eq: "str (n div 10) = str (m div 10)" "digit_char (n mod 10) = digit_char (m mod 10)"
        by (simp_all add: str.simps [of n] str.simps [of m])
      from big_n eq(1) have "n div 10 = m div 10" by (rule "1.IH")
      moreover from eq(2) have "n mod 10 = m mod 10" by (simp add: digit_char_inj)
      ultimately show ?thesis by (metis div_mult_mod_eq)
    qed
  qed
qed

lemma candidate_inj: "candidate s e j = candidate s e k \<Longrightarrow> j = k"
  by (simp add: candidate_def str_inj)

lemma finite_candidates: "finite {j. candidate s e j \<in> set target}"
proof -
  have "inj (candidate s e)" by (rule injI) (rule candidate_inj)
  then have "finite (candidate s e -` set target)" by (simp add: finite_vimageI)
  then show ?thesis by (simp add: vimage_def)
qed


text \<open>
  A target directory as \<^verbatim>\<open>get_unique_filename\<close> sees it, that is through
  \<^verbatim>\<open>Path.exists()\<close>. \<open>present\<close> lists the names for which \<^verbatim>\<open>exists()\<close> answers \<^verbatim>\<open>True\<close>;
  they are finitely many (on a file system that ignores letter case they are the names of
  the entries in every spelling of the case). \<^verbatim>\<open>exists()\<close> follows symbolic links, so it answers \<^verbatim>\<open>False\<close> for
  an entry that is a link whose target is missing: \<open>broken\<close> lists the names of these
  entries. For a name in \<open>inaccessible\<close> the underlying \<^verbatim>\<open>stat\<close> fails with an error that
  \<^verbatim>\<open>exists()\<close> does not swallow, and \<^verbatim>\<open>exists()\<close> raises.
\<close>

record directory =
  present :: "string list"
  broken :: "string list"
  inaccessible :: "string set"

definition path_exists :: "directory \<Rightarrow> string \<Rightarrow> error + bool" where
  "path_exists d name =
     (if name \<in> inaccessible d then Inl (OSError name) else Inr (name \<in> set (present d)))"

text \<open>
  The \<^verbatim>\<open>while True\<close> loop of \<^verbatim>\<open>get_unique_filename\<close>. It goes on only past a candidate
  for which \<^verbatim>\<open>exists()\<close> is true; these are finitely many and distinct counters give
  distinct candidates, hence the loop stops.
\<close>

function unique_loop :: "directory \<Rightarrow> string \<Rightarrow> string \<Rightarrow> nat \<Rightarrow> error + string" where
  "unique_loop target_dir name_stem extension counter =
     (let new_filename = candidate name_stem extension counter in
      case path_exists target_dir new_filename of
        Inl e \<Rightarrow> Inl e
      | Inr found \<Rightarrow>
          if \<not> found then Inr new_filename
          else unique_loop target_dir name_stem extension (counter + 1))"
  by pat_completeness auto
termination
proof (relation "measure (\<lambda>(d, s, e, k). card {j. k \<le> j \<and> candidate s e j \<in> set (present d)})",
    goal_cases)
  case 1
  show ?case by simp
next
  case (2 target_dir name_stem extension counter new_filename found)
  let ?A = "\<lambda>k. {j. k \<le> j \<and> candidate name_stem extension j \<in> set (present target_dir)}"
  have fin: "finite (?A counter)"
    using finite_candidates [of name_stem extension "present target_dir"] by simp
  from 2 have "candidate name_stem extension counter \<in> set (present target_dir)"
    by (auto simp: path_exists_def split: if_splits)
  then have "counter \<in> ?A counter" by simp
  moreover have "counter \<notin> ?A (counter + 1)" by simp
  moreover have "?A (counter + 1) \<subseteq> ?A counter" by auto
  ultimately have "?A (counter + 1) \<subset> ?A counter" by blast
  with fin have "card (?A (counter + 1)) < card (?A counter)" by (rule psubset_card_mono)
  then show ?case by simp
qed

declare unique_loop.simps [simp del]

definition get_unique_filename :: "directory \<Rightarrow> string \<Rightarrow> error + string" where
  "get_unique_filename target_dir filename =
     (case path_exists target_dir filename of
        Inl e \<Rightarrow> Inl e
      | Inr found \<Rightarrow>
          if \<not> found then Inr filename
          else unique_loop target_dir (stem filename) (suffix filename) 1)"


subsection \<open>Classifier\<close>

text \<open>
  The \<^verbatim>\<open>for category, extensions in FILE_CATEGORIES.items()\<close> loop of \<^verbatim>\<open>get_category\<close>,
  over an arbitrary table: the first entry whose list holds the extension wins, and
  falling out of the loop returns \<^verbatim>\<open>'Others'\<close>.
\<close>

fun first_category :: "(string \<times> string list) list \<Rightarrow> string \<Rightarrow> string" where
  "first_category [] file_extension = ''Others''"
| "first_category ((category, extensions) # rest) file_extension =
     (if file_extension \<in> set extensions then category
      else first_category rest file_extension)"

definition get_category :: "string \<Rightarrow> string" where
  "get_category file_extension = first_category FILE_CATEGORIES (lower file_extension)"

text \<open>The configured lists share no extension, and no category is listed twice.\<close>

fun exclusive :: "(string \<times> string list) list \<Rightarrow> bool" where
  "exclusive [] = True"
| "exclusive ((category, extensions) # rest) =
     (list_all (\<lambda>(c, es). c \<noteq> category \<and> list_all (\<lambda>e. e \<notin> set es) extensions) rest
      \<and> exclusive rest)"


subsection \<open>The desktop directory\<close>

text \<open>
  The part of the file system the program touches: the desktop directory, its immediate
  children in the order \<^verbatim>\<open>iterdir\<close> lists them, and for each child folder what
  \<^verbatim>\<open>Path.exists()\<close> answers inside it. \<open>RegularFile\<close> is what \<^verbatim>\<open>is_file()\<close> accepts,
  \<open>Directory\<close> what \<^verbatim>\<open>is_dir()\<close> accepts (both follow symbolic links), \<open>Special\<close> is
  anything else (a link whose target is missing, a socket, a device, ...). The kind of a
  name is that of its first entry in the list; a directory has one entry per name.
  All paths are path names under the desktop: a child folder that is a symbolic link to a
  directory is a \<open>Directory\<close>, wherever its target lies. The lookups in the desktop and
  the updates of the tree compare names exactly, as a file system that distinguishes letter
  case does; what \<^verbatim>\<open>exists()\<close> answers inside a folder is data of the model, whatever the
  file system.

  \<^item> \<open>desktop_exists\<close> is the answer of \<^verbatim>\<open>desktop_path.exists()\<close>; \<open>listable\<close> says that
    \<^verbatim>\<open>iterdir()\<close> returns (the path is a directory that may be read); \<open>writable\<close> says
    that a new folder can be created in it.
  \<^item> \<open>contents\<close>, \<open>dangling\<close> and \<open>unreachable\<close> give the \<open>present\<close>, \<open>broken\<close> and
    \<open>inaccessible\<close> names of each child folder.
  \<^item> \<open>unmovable\<close> holds the names of the children for which \<^verbatim>\<open>shutil.move\<close> raises, and
    \<open>leaves_copy\<close> those among them for which it raises after its fallback has copied
    the file (\<^verbatim>\<open>os.rename\<close> fails, the copy succeeds, \<^verbatim>\<open>os.unlink\<close> fails, as for a
    locked file): the copy stays in the folder and the source stays on the desktop. Both
    last as long as nobody else touches the directory.
  \<^item> \<open>journal\<close> is a ghost field: every operation that changes the tree appends what
    it did.
\<close>

datatype kind = RegularFile | Directory | Special

datatype action =
    CreateFolder string  \<comment> \<open>created \<^verbatim>\<open>desktop_path / category\<close>\<close>
  | MoveFile string string string
      \<comment> \<open>moved \<^verbatim>\<open>desktop_path / name\<close> to \<^verbatim>\<open>desktop_path / category / unique_filename\<close>\<close>
  | LeaveCopy string string string
      \<comment> \<open>a failed move left a copy, whole or partial, of \<^verbatim>\<open>desktop_path / name\<close> at
         \<^verbatim>\<open>desktop_path / category / unique_filename\<close>\<close>

record filesystem =
  desktop_exists :: bool
  listable :: bool
  writable :: bool
  entries :: "(string \<times> kind) list"
  contents :: "string \<Rightarrow> string list"
  dangling :: "string \<Rightarrow> string list"
  unreachable :: "string set"
  unmovable :: "string set"
  leaves_copy :: "string set"
  journal :: "action list"

definition is_file :: "filesystem \<Rightarrow> string \<Rightarrow> bool" where
  "is_file f name = (map_of (entries f) name = Some RegularFile)"

text \<open>The child folder \<open>name\<close> as a target directory of the name resolver.\<close>

definition folder :: "filesystem \<Rightarrow> string \<Rightarrow> directory" where
  "folder f name =
     \<lparr>present = contents f name, broken = dangling f name, inaccessible = unreachable f\<rparr>"

text \<open>
  \<^verbatim>\<open>Path.mkdir(exist_ok=True)\<close>: creates the folder when the name is free and the desktop
  accepts it, does nothing when a directory of that name is there (whatever
  \<^verbatim>\<open>os.mkdir\<close> answered), and raises otherwise: \<^verbatim>\<open>FileExistsError\<close> when the name is taken
  by something that is not a directory, \<^verbatim>\<open>PermissionError\<close> when the folder cannot be
  created.
\<close>

definition mkdir_exist_ok :: "filesystem \<Rightarrow> string \<Rightarrow> error + filesystem" where
  "mkdir_exist_ok f name =
     (case map_of (entries f) name of
        None \<Rightarrow>
          if writable f
          then Inr (f\<lparr>entries := entries f @ [(name, Directory)],
                      contents := (contents f)(name := []),
                      dangling := (dangling f)(name := []),
                      journal := journal f @ [CreateFolder name]\<rparr>)
          else Inl (PermissionError name)
      | Some Directory \<Rightarrow> Inr f
      | Some _ \<Rightarrow> Inl (FileExistsError name))"

text \<open>
  \<^verbatim>\<open>shutil.move(str(item), str(destination))\<close> for a child \<open>name\<close> of the desktop and the
  destination \<open>category / new_name\<close>, for which \<^verbatim>\<open>exists()\<close> has answered \<^verbatim>\<open>False\<close>. When it
  succeeds the file is in the folder under the new name (taking the place of a broken link
  of that name) and no longer on the desktop. When it raises, it has either changed nothing
  (\<^verbatim>\<open>os.rename\<close> and the copy of the fallback both failed at once) or left a copy, whole
  or partial, in the folder while the source is still on the desktop.
\<close>

definition shutil_move ::
  "filesystem \<Rightarrow> string \<Rightarrow> string \<Rightarrow> string \<Rightarrow> (error \<times> filesystem) + filesystem" where
  "shutil_move f name category new_name =
     (if name \<in> unmovable f then
        if name \<in> leaves_copy f
        then Inl (MoveError name,
                  f\<lparr>contents := (contents f)(category := new_name # contents f category),
                    dangling := (dangling f)(category := removeAll new_name (dangling f category)),
                    journal := journal f @ [LeaveCopy name category new_name]\<rparr>)
        else Inl (MoveError name, f)
      else
        Inr (f\<lparr>entries := filter (\<lambda>(n, k). n \<noteq> name) (entries f),
               contents := (contents f)(category := new_name # contents f category),
               dangling := (dangling f)(category := removeAll new_name (dangling f category)),
               journal := journal f @ [MoveFile name category new_name]\<rparr>))"

subsection \<open>Organizer\<close>

text \<open>
  The lines the program prints, by the information they carry (the wording is in the
  comments).
\<close>

datatype line =
    DesktopNotFound  \<comment> \<open>\<^verbatim>\<open>Error: Desktop path not found at ...\<close>\<close>
  | Organizing  \<comment> \<open>\<^verbatim>\<open>Organizing files in: ...\<close>\<close>
  | Moved string string string  \<comment> \<open>\<^verbatim>\<open>Moved: name -> category/unique_filename\<close>\<close>
  | ErrorMoving string error  \<comment> \<open>\<^verbatim>\<open>Error moving name: e\<close>\<close>
  | Rule  \<comment> \<open>fifty \<^verbatim>\<open>=\<close>\<close>
  | SummaryTitle  \<comment> \<open>\<^verbatim>\<open>SUMMARY\<close>\<close>
  | NoFilesMoved  \<comment> \<open>\<^verbatim>\<open>No files were moved. Desktop is already organized or empty.\<close>\<close>
  | CategoryLine string nat  \<comment> \<open>\<^verbatim>\<open>category: count file(s)\<close>\<close>
  | TotalLine nat  \<comment> \<open>\<^verbatim>\<open>Total files organized: total_files\<close>\<close>

text \<open>
  \<open>move_count\<close> is a \<^verbatim>\<open>defaultdict(int)\<close>: an association list in insertion order, a
  missing key reading as 0.
\<close>

record state =
  fs :: filesystem
  move_count :: "(string \<times> nat) list"
  out :: "line list"

definition count_of :: "(string \<times> nat) list \<Rightarrow> string \<Rightarrow> nat" where
  "count_of counts category = (case map_of counts category of None \<Rightarrow> 0 | Some n \<Rightarrow> n)"

fun increment :: "(string \<times> nat) list \<Rightarrow> string \<Rightarrow> (string \<times> nat) list" where
  "increment [] category = [(category, 1)]"
| "increment ((c, n) # rest) category =
     (if c = category then (c, n + 1) # rest else (c, n) # increment rest category)"

text \<open>
  The body of \<^verbatim>\<open>for item in items\<close>. \<open>Inl\<close> is an exception that leaves
  \<^verbatim>\<open>organize_desktop\<close>, with the state reached when it was raised: the folder creation
  and the name resolver are called outside the \<^verbatim>\<open>try\<close>, the move inside it.
\<close>

definition process_item :: "state \<Rightarrow> string \<Rightarrow> (error \<times> state) + state" where
  "process_item s name =
     (if \<not> is_file (fs s) name then Inr s
      else if name \<in> set IGNORED_FILES then Inr s
      else if startswith name ''.'' then Inr s
      else
        let file_extension = suffix name;
            category = get_category file_extension
        in case mkdir_exist_ok (fs s) category of
             Inl e \<Rightarrow> Inl (e, s)
           | Inr f1 \<Rightarrow>
               (case get_unique_filename (folder f1 category) name of
                  Inl e \<Rightarrow> Inl (e, s\<lparr>fs := f1\<rparr>)
                | Inr unique_filename \<Rightarrow>
                    (case shutil_move f1 name category unique_filename of
                       Inr f2 \<Rightarrow>
                         Inr (s\<lparr>fs := f2,
                                move_count := increment (move_count s) category,
                                out := out s @ [Moved name category unique_filename]\<rparr>)
                     | Inl (e, f2) \<Rightarrow>
                         Inr (s\<lparr>fs := f2, out := out s @ [ErrorMoving name e]\<rparr>))))"

fun process_items :: "state \<Rightarrow> string list \<Rightarrow> (error \<times> state) + state" where
  "process_items s [] = Inr s"
| "process_items s (item # items) =
     (case process_item s item of
        Inl crash \<Rightarrow> Inl crash
      | Inr s' \<Rightarrow> process_items s' items)"

text \<open>
  The summary. \<^verbatim>\<open>sorted(move_count.keys())\<close> orders the keys as Python orders strings,
  character by character with a proper prefix first: the lexicographic order on
  \<^typ>\<open>string\<close>.
\<close>

definition summary :: "(string \<times> nat) list \<Rightarrow> line list" where
  "summary counts =
     (let total_files = sum_list (map snd counts)
      in if total_files = 0 then [NoFilesMoved]
         else map (\<lambda>category. CategoryLine category (count_of counts category))
                (sort (map fst counts))
              @ [TotalLine total_files])"

text \<open>
  \<^verbatim>\<open>organize_desktop\<close>, on the file system found at \<^verbatim>\<open>get_desktop_path()\<close>. The snapshot
  \<^verbatim>\<open>items\<close> is the list of the children's names; \<^verbatim>\<open>is_file\<close> looks at the tree as it is
  when the item is reached.
\<close>

definition organize_desktop :: "filesystem \<Rightarrow> (error \<times> state) + state" where
  "organize_desktop f =
     (if \<not> desktop_exists f then Inr \<lparr>fs = f, move_count = [], out = [DesktopNotFound]\<rparr>
      else if \<not> listable f
      then Inl (NotADirectoryError, \<lparr>fs = f, move_count = [], out = [Organizing]\<rparr>)
      else
        let items = map fst (entries f)
        in case process_items \<lparr>fs = f, move_count = [], out = [Organizing]\<rparr> items of
             Inl crash \<Rightarrow> Inl crash
           | Inr s \<Rightarrow>
               Inr (s\<lparr>out := out s @ [Rule, SummaryTitle, Rule] @ summary (move_count s)\<rparr>))"

text \<open>
  The script calls \<^verbatim>\<open>organize_desktop()\<close> and nothing else: the interpreter exits with
  status 0 when the call returns and with status 1 when an exception leaves it.
\<close>

definition exit_status :: "filesystem \<Rightarrow> nat" where
  "exit_status f = (case organize_desktop f of Inl crash \<Rightarrow> 1 | Inr s \<Rightarrow> 0)"


subsection \<open>Notions used to state the properties\<close>

text \<open>
  An entry is eligible when none of the three \<^verbatim>\<open>continue\<close> tests of the loop fires for
  it; its category is that of its \<^verbatim>\<open>item.suffix\<close>.
\<close>

definition eligible :: "filesystem \<Rightarrow> string \<Rightarrow> bool" where
  "eligible f name =
     (is_file f name \<and> name \<notin> set IGNORED_FILES \<and> \<not> startswith name ''.'')"

definition category_of :: "string \<Rightarrow> string" where
  "category_of name = get_category (suffix name)"

text \<open>The state a run has reached, whether it returned or was left by an exception.\<close>

definition reached :: "(error \<times> state) + state \<Rightarrow> state" where
  "reached r = (case r of Inl (e, s) \<Rightarrow> s | Inr s \<Rightarrow> s)"

text \<open>The category labels, in the order of the table.\<close>

definition categories :: "string list" where
  "categories = map fst FILE_CATEGORIES"

text \<open>
  What a journal says about the successful moves of a run: how many files went into a
  category folder, and how many files were moved at all.
\<close>

fun destination :: "action \<Rightarrow> string option" where
  "destination (MoveFile name category new_name) = Some category"
| "destination (CreateFolder category) = None"
| "destination (LeaveCopy name category new_name) = None"

definition moved_into :: "action list \<Rightarrow> string \<Rightarrow> nat" where
  "moved_into acts category = length (filter (\<lambda>a. destination a = Some category) acts)"

definition moved :: "action list \<Rightarrow> nat" where
  "moved acts = length (filter (\<lambda>a. destination a \<noteq> None) acts)"

text \<open>
  The eligible files of the snapshot a run takes of a desktop, and those among them whose
  move raises.
\<close>

definition eligible_files :: "filesystem \<Rightarrow> string list" where
  "eligible_files f = filter (eligible f) (map fst (entries f))"

definition failing_files :: "filesystem \<Rightarrow> string list" where
  "failing_files f = filter (\<lambda>n. n \<in> unmovable f) (eligible_files f)"

text \<open>
  One file system evolves into another when the regular files of the second are regular
  files of the first, nothing but the journal and the tree has changed, the journal has
  grown by folder creations for category labels and by moves and copies of eligible files
  into the folders of their categories under names the resolver returns, folders that are
  not category folders are as they were, and the desktop has gained no child but category
  folders.
\<close>

definition evolves :: "filesystem \<Rightarrow> filesystem \<Rightarrow> bool" where
  "evolves f g =
     ((\<forall>n. is_file g n \<longrightarrow> is_file f n)
      \<and> desktop_exists g = desktop_exists f \<and> listable g = listable f
      \<and> writable g = writable f \<and> unreachable g = unreachable f
      \<and> unmovable g = unmovable f \<and> leaves_copy g = leaves_copy f
      \<and> (\<exists>acts. journal g = journal f @ acts
            \<and> (\<forall>a \<in> set acts.
                  (\<exists>c \<in> set categories. a = CreateFolder c)
                \<or> (\<exists>n u. (a = MoveFile n (category_of n) u
                            \<or> a = LeaveCopy n (category_of n) u)
                      \<and> eligible f n
                      \<and> (\<exists>d. get_unique_filename d n = Inr u))))
      \<and> (\<forall>c. c \<notin> set categories
            \<longrightarrow> contents g c = contents f c \<and> dangling g c = dangling f c)
      \<and> set (entries g) \<subseteq> set (entries f) \<union> {(c, Directory) |c. c \<in> set categories})"

subsection \<open>Examples\<close>

text \<open>
  Four concrete file systems: one without a desktop directory; one with a name collision
  in the Images folder, an ignored file, a file whose move raises without a trace and,
  after it, a file without extension; one where a regular file bears the name of a
  category; and one with a locked file, whose move raises after the copy. And a target
  directory whose only entry is a broken link.
\<close>

definition no_desktop :: filesystem where
  "no_desktop =
     \<lparr>desktop_exists = False, listable = False, writable = False, entries = [],
      contents = (\<lambda>folder. []), dangling = (\<lambda>folder. []), unreachable = {},
      unmovable = {}, leaves_copy = {}, journal = []\<rparr>"

definition sample_desktop :: filesystem where
  "sample_desktop =
     \<lparr>desktop_exists = True, listable = True, writable = True,
      entries = [(''photo.jpg'', RegularFile), (''.DS_Store'', RegularFile),
                 (''report.pdf'', RegularFile), (''locked.txt'', RegularFile),
                 (''Images'', Directory), (''README'', RegularFile)],
      contents = (\<lambda>folder. if folder = ''Images'' then [''photo.jpg''] else []),
      dangling = (\<lambda>folder. []),
      unreachable = {},
      unmovable = {''locked.txt''},
      leaves_copy = {},
      journal = []\<rparr>"

definition blocked_desktop :: filesystem where
  "blocked_desktop =
     \<lparr>desktop_exists = True, listable = True, writable = True,
      entries = [(''locked.pdf'', RegularFile), (''b.jpg'', RegularFile),
                 (''Images'', RegularFile)],
      contents = (\<lambda>folder. []),
      dangling = (\<lambda>folder. []),
      unreachable = {},
      unmovable = {''locked.pdf''},
      leaves_copy = {},
      journal = []\<rparr>"

definition locked_desktop :: filesystem where
  "locked_desktop =
     \<lparr>desktop_exists = True, listable = True, writable = True,
      entries = [(''locked.txt'', RegularFile), (''Documents'', Directory)],
      contents = (\<lambda>folder. []),
      dangling = (\<lambda>folder. []),
      unreachable = {},
      unmovable = {''locked.txt''},
      leaves_copy = {''locked.txt''},
      journal = []\<rparr>"

definition linked_folder :: directory where
  "linked_folder = \<lparr>present = [], broken = [''photo.jpg''], inaccessible = {}\<rparr>"


section \<open>Properties of the classifier\<close>

lemma first_category_miss:
  "\<forall>(c, es) \<in> set tbl. e \<notin> set es \<Longrightarrow> first_category tbl e = ''Others''"
  by (induction tbl e rule: first_category.induct) auto

lemma first_category_hit:
  "exclusive tbl \<Longrightarrow> (c, es) \<in> set tbl \<Longrightarrow> e \<in> set es \<Longrightarrow> first_category tbl e = c"
proof (induction tbl e rule: first_category.induct)
  case (1 e)
  then show ?case by simp
next
  case (2 category extensions rest e)
  show ?case
  proof (cases "e \<in> set extensions")
    case True
    have "(c, es) \<notin> set rest"
    proof
      assume "(c, es) \<in> set rest"
      with "2.prems"(1) have "list_all (\<lambda>x. x \<notin> set es) extensions"
        by (auto simp: list_all_iff)
      with True "2.prems"(3) show False by (auto simp: list_all_iff)
    qed
    with "2.prems"(2) True show ?thesis by auto
  next
    case False
    with "2.prems"(2,3) have "(c, es) \<in> set rest" by auto
    with False "2.prems"(1,3) "2.IH" show ?thesis by simp
  qed
qed

lemma exclusive_FILE_CATEGORIES: "exclusive FILE_CATEGORIES"
  by (simp add: FILE_CATEGORIES_def)

lemma first_category_range:
  "first_category tbl e \<in> insert ''Others'' (fst ` set tbl)"
  by (induction tbl e rule: first_category.induct) auto

lemma lower_lower: "lower (lower e) = lower e"
proof -
  let ?tbl = "zip ''ABCDEFGHIJKLMNOPQRSTUVWXYZ'' ''abcdefghijklmnopqrstuvwxyz''"
  have fix_lower: "\<forall>d \<in> set ''abcdefghijklmnopqrstuvwxyz''. map_of ?tbl d = None"
    by simp
  have "lower_char (lower_char c) = lower_char c" for c
  proof (cases "map_of ?tbl c")
    case None
    then show ?thesis by (simp add: lower_char_def)
  next
    case (Some d)
    then have "(c, d) \<in> set ?tbl" by (rule map_of_SomeD)
    then have "d \<in> set ''abcdefghijklmnopqrstuvwxyz''" by (rule set_zip_rightD)
    with fix_lower have "map_of ?tbl d = None" by (rule bspec)
    with Some show ?thesis by (simp add: lower_char_def)
  qed
  then show ?thesis by (simp add: lower_def)
qed

text \<open>
  Claim C1. For every extension string \<open>e\<close>, \<^verbatim>\<open>get_category\<close> returns the category whose
  configured list holds the lowercased \<open>e\<close>, and \<^verbatim>\<open>'Others'\<close> when no list holds it.
  Matching ignores case: two extensions with the same lowercase form get the same
  category, as do \<^verbatim>\<open>.JPG\<close> and \<^verbatim>\<open>.jpg\<close>, both Images. \<open>get_category\<close> is a HOL function,
  hence total and deterministic.
\<close>

theorem get_category_classifies:
  "(\<forall>category extensions.
      (category, extensions) \<in> set FILE_CATEGORIES \<and> lower e \<in> set extensions
        \<longrightarrow> get_category e = category)
   \<and> ((\<forall>(category, extensions) \<in> set FILE_CATEGORIES. lower e \<notin> set extensions)
        \<longrightarrow> get_category e = ''Others'')
   \<and> (\<forall>e'. lower e' = lower e \<longrightarrow> get_category e' = get_category e)
   \<and> get_category (lower e) = get_category e
   \<and> get_category ''.JPG'' = ''Images'' \<and> get_category ''.jpg'' = ''Images''"
proof (intro conjI allI impI)
  fix category extensions
  assume a: "(category, extensions) \<in> set FILE_CATEGORIES \<and> lower e \<in> set extensions"
  from a have 1: "(category, extensions) \<in> set FILE_CATEGORIES" by (rule conjunct1)
  from a have 2: "lower e \<in> set extensions" by (rule conjunct2)
  from exclusive_FILE_CATEGORIES 1 2 show "get_category e = category"
    unfolding get_category_def by (rule first_category_hit)
next
  assume "\<forall>(category, extensions) \<in> set FILE_CATEGORIES. lower e \<notin> set extensions"
  then show "get_category e = ''Others''"
    unfolding get_category_def by (rule first_category_miss)
next
  fix e' assume "lower e' = lower e"
  then show "get_category e' = get_category e" by (simp add: get_category_def)
next
  show "get_category (lower e) = get_category e" by (simp add: get_category_def lower_lower)
next
  show "get_category ''.JPG'' = ''Images''"
    by (simp add: get_category_def FILE_CATEGORIES_def lower_def lower_char_def)
next
  show "get_category ''.jpg'' = ''Images''"
    by (simp add: get_category_def FILE_CATEGORIES_def lower_def lower_char_def)
qed

theorem get_category_classifies_witness:
  "(''Music'', [''.mp3'', ''.wav'', ''.flac'', ''.aac'', ''.ogg'', ''.wma'', ''.m4a''])
      \<in> set FILE_CATEGORIES
   \<and> lower ''.Mp3'' \<in> set [''.mp3'', ''.wav'', ''.flac'', ''.aac'', ''.ogg'', ''.wma'', ''.m4a'']
   \<and> get_category ''.Mp3'' = ''Music''
   \<and> get_category ''.XYZ'' = ''Others''
   \<and> get_category ''.PdF'' = get_category ''.pdf''"
proof -
  have 1: "(''Music'', [''.mp3'', ''.wav'', ''.flac'', ''.aac'', ''.ogg'', ''.wma'', ''.m4a''])
      \<in> set FILE_CATEGORIES"
    by (simp add: FILE_CATEGORIES_def)
  have 2: "lower ''.Mp3'' \<in> set [''.mp3'', ''.wav'', ''.flac'', ''.aac'', ''.ogg'', ''.wma'', ''.m4a'']"
    by (simp add: lower_def lower_char_def)
  have 3: "\<forall>(category, extensions) \<in> set FILE_CATEGORIES. lower ''.XYZ'' \<notin> set extensions"
    by (simp add: FILE_CATEGORIES_def lower_def lower_char_def)
  have 4: "lower ''.PdF'' = lower ''.pdf''"
    by (simp add: lower_def lower_char_def)
  note thm1 = get_category_classifies [of "''.Mp3''", THEN conjunct1, rule_format, OF conjI, OF 1 2]
  note thm2 = get_category_classifies [of "''.XYZ''", THEN conjunct2, THEN conjunct1, THEN mp, OF 3]
  note thm3 = get_category_classifies [of "''.pdf''", THEN conjunct2, THEN conjunct2, THEN conjunct1,
      rule_format, OF 4]
  from 1 2 thm1 thm2 thm3 show ?thesis by (intro conjI)
qed

lemma exclusive_disjoint:
  "exclusive tbl \<Longrightarrow> (c1, es1) \<in> set tbl \<Longrightarrow> (c2, es2) \<in> set tbl \<Longrightarrow> c1 \<noteq> c2
    \<Longrightarrow> set es1 \<inter> set es2 = {}"
  by (induction tbl) (fastforce simp: list_all_iff)+

lemma exclusive_distinct: "exclusive tbl \<Longrightarrow> distinct (map fst tbl)"
  by (induction tbl) (auto simp: list_all_iff)

lemma first_category_found:
  "(c, es) \<in> set tbl \<Longrightarrow> e \<in> set es
    \<Longrightarrow> \<exists>es'. (first_category tbl e, es') \<in> set tbl \<and> e \<in> set es'"
  by (induction tbl e rule: first_category.induct) auto

lemma first_category_first:
  "\<forall>(c, es) \<in> set before. e \<notin> set es \<Longrightarrow> e \<in> set extensions
    \<Longrightarrow> first_category (before @ (category, extensions) # after) e = category"
  by (induction before) auto

text \<open>
  Claim C8. The configured extension lists are pairwise disjoint and no category is
  configured twice, so exactly one category matches an extension (the catch-all
  \<^verbatim>\<open>'Others'\<close> matching what no list holds), and it is the one \<^verbatim>\<open>get_category\<close> returns.
  Over any table, also one whose lists overlap, the loop of \<^verbatim>\<open>get_category\<close> returns the
  first category, in the order of the table, whose list holds the extension.
\<close>

theorem first_matching_category_wins:
  "(\<forall>(c1, es1) \<in> set FILE_CATEGORIES. \<forall>(c2, es2) \<in> set FILE_CATEGORIES.
      c1 \<noteq> c2 \<longrightarrow> set es1 \<inter> set es2 = {})
   \<and> distinct (map fst FILE_CATEGORIES)
   \<and> (\<forall>c. ((\<exists>es. (c, es) \<in> set FILE_CATEGORIES \<and> lower e \<in> set es)
            \<or> (c = ''Others'' \<and> (\<forall>(c', es) \<in> set FILE_CATEGORIES. lower e \<notin> set es)))
          \<longleftrightarrow> c = get_category e)
   \<and> (\<forall>before category extensions after x.
        x \<in> set extensions \<and> (\<forall>(c, es) \<in> set before. x \<notin> set es)
          \<longrightarrow> first_category (before @ (category, extensions) # after) x = category)"
proof (intro conjI)
  show "\<forall>(c1, es1) \<in> set FILE_CATEGORIES. \<forall>(c2, es2) \<in> set FILE_CATEGORIES.
      c1 \<noteq> c2 \<longrightarrow> set es1 \<inter> set es2 = {}"
    using exclusive_disjoint [OF exclusive_FILE_CATEGORIES] by blast
next
  show "distinct (map fst FILE_CATEGORIES)"
    using exclusive_FILE_CATEGORIES by (rule exclusive_distinct)
next
  show "\<forall>c. ((\<exists>es. (c, es) \<in> set FILE_CATEGORIES \<and> lower e \<in> set es)
            \<or> (c = ''Others'' \<and> (\<forall>(c', es) \<in> set FILE_CATEGORIES. lower e \<notin> set es)))
          \<longleftrightarrow> c = get_category e"
  proof (intro allI iffI)
    fix c
    assume "(\<exists>es. (c, es) \<in> set FILE_CATEGORIES \<and> lower e \<in> set es)
            \<or> (c = ''Others'' \<and> (\<forall>(c', es) \<in> set FILE_CATEGORIES. lower e \<notin> set es))"
    then show "c = get_category e"
    proof
      assume "\<exists>es. (c, es) \<in> set FILE_CATEGORIES \<and> lower e \<in> set es"
      then obtain es where "(c, es) \<in> set FILE_CATEGORIES" "lower e \<in> set es" by blast
      with exclusive_FILE_CATEGORIES have "first_category FILE_CATEGORIES (lower e) = c"
        by (rule first_category_hit)
      then show ?thesis by (simp add: get_category_def)
    next
      assume "c = ''Others'' \<and> (\<forall>(c', es) \<in> set FILE_CATEGORIES. lower e \<notin> set es)"
      then show ?thesis
        by (simp add: get_category_def first_category_miss)
    qed
  next
    fix c
    assume c: "c = get_category e"
    show "(\<exists>es. (c, es) \<in> set FILE_CATEGORIES \<and> lower e \<in> set es)
            \<or> (c = ''Others'' \<and> (\<forall>(c', es) \<in> set FILE_CATEGORIES. lower e \<notin> set es))"
    proof (cases "\<exists>c' es. (c', es) \<in> set FILE_CATEGORIES \<and> lower e \<in> set es")
      case True
      then obtain c' es where "(c', es) \<in> set FILE_CATEGORIES" "lower e \<in> set es" by blast
      then have "\<exists>es'. (first_category FILE_CATEGORIES (lower e), es') \<in> set FILE_CATEGORIES
          \<and> lower e \<in> set es'"
        by (rule first_category_found)
      with c show ?thesis by (simp add: get_category_def)
    next
      case False
      then have none: "\<forall>(c', es) \<in> set FILE_CATEGORIES. lower e \<notin> set es" by blast
      then have "first_category FILE_CATEGORIES (lower e) = ''Others''"
        by (rule first_category_miss)
      with c none show ?thesis by (simp add: get_category_def)
    qed
  qed
next
  show "\<forall>before category extensions after x.
        x \<in> set extensions \<and> (\<forall>(c, es) \<in> set before. x \<notin> set es)
          \<longrightarrow> first_category (before @ (category, extensions) # after) x = category"
    by (simp add: first_category_first)
qed

theorem first_matching_category_wins_witness:
  "''.x'' \<in> set [''.x'', ''.y'']
   \<and> first_category [(''A'', [''.x'', ''.y'']), (''B'', [''.x''])] ''.x'' = ''A''
   \<and> first_category [(''B'', [''.x'']), (''A'', [''.x'', ''.y''])] ''.x'' = ''B''
   \<and> ''.y'' \<in> set [''.x'', ''.y'']
   \<and> first_category [(''B'', [''.x'']), (''A'', [''.x'', ''.y''])] ''.y'' = ''A''"
proof -
  note first =
    first_matching_category_wins [of "[]", THEN conjunct2, THEN conjunct2, THEN conjunct2,
      rule_format]
  have x: "''.x'' \<in> set [''.x'', ''.y'']" and y: "''.y'' \<in> set [''.x'', ''.y'']" by simp_all
  have x': "''.x'' \<in> set [''.x'']" by simp
  have empty: "\<forall>(c, es) \<in> set ([] :: (string \<times> string list) list). z \<notin> set es" for z :: string
    by simp
  have skip: "\<forall>(c, es) \<in> set [(''B'', [''.x''])]. ''.y'' \<notin> set es" by simp
  from first [of "''.x''" "[''.x'', ''.y'']" "[]" "''A''" "[(''B'', [''.x''])]"] x empty
  have 1: "first_category [(''A'', [''.x'', ''.y'']), (''B'', [''.x''])] ''.x'' = ''A''"
    by simp
  from first [of "''.x''" "[''.x'']" "[]" "''B''" "[(''A'', [''.x'', ''.y''])]"] x' empty
  have 2: "first_category [(''B'', [''.x'']), (''A'', [''.x'', ''.y''])] ''.x'' = ''B''"
    by simp
  from first [of "''.y''" "[''.x'', ''.y'']" "[(''B'', [''.x''])]" "''A''" "[]"] y skip
  have 3: "first_category [(''B'', [''.x'']), (''A'', [''.x'', ''.y''])] ''.y'' = ''A''"
    by simp
  from x 1 2 y 3 show ?thesis by (intro conjI)
qed


section \<open>Properties of the name resolver\<close>

lemma unique_loop_least:
  "\<exists>k\<ge>counter.
      (\<forall>j. counter \<le> j \<and> j < k
          \<longrightarrow> candidate name_stem extension j \<notin> inaccessible target_dir
              \<and> candidate name_stem extension j \<in> set (present target_dir))
      \<and> (candidate name_stem extension k \<in> inaccessible target_dir
            \<and> unique_loop target_dir name_stem extension counter
                = Inl (OSError (candidate name_stem extension k))
          \<or> candidate name_stem extension k \<notin> inaccessible target_dir
            \<and> candidate name_stem extension k \<notin> set (present target_dir)
            \<and> unique_loop target_dir name_stem extension counter
                = Inr (candidate name_stem extension k))"
proof (induction target_dir name_stem extension counter rule: unique_loop.induct)
  case (1 target_dir name_stem extension counter)
  let ?c = "candidate name_stem extension"
  let ?goal = "\<lambda>k. (\<forall>j. counter \<le> j \<and> j < k
          \<longrightarrow> ?c j \<notin> inaccessible target_dir \<and> ?c j \<in> set (present target_dir))
      \<and> (?c k \<in> inaccessible target_dir
            \<and> unique_loop target_dir name_stem extension counter = Inl (OSError (?c k))
          \<or> ?c k \<notin> inaccessible target_dir \<and> ?c k \<notin> set (present target_dir)
            \<and> unique_loop target_dir name_stem extension counter = Inr (?c k))"
  consider (raises) "?c counter \<in> inaccessible target_dir"
    | (free) "?c counter \<notin> inaccessible target_dir" "?c counter \<notin> set (present target_dir)"
    | (taken) "?c counter \<notin> inaccessible target_dir" "?c counter \<in> set (present target_dir)"
    by blast
  then show ?case
  proof cases
    case raises
    then have "unique_loop target_dir name_stem extension counter = Inl (OSError (?c counter))"
      by (simp add: unique_loop.simps [of target_dir name_stem extension counter] path_exists_def)
    with raises have "?goal counter" by auto
    then show ?thesis by blast
  next
    case free
    then have "unique_loop target_dir name_stem extension counter = Inr (?c counter)"
      by (simp add: unique_loop.simps [of target_dir name_stem extension counter] path_exists_def)
    with free have "?goal counter" by auto
    then show ?thesis by blast
  next
    case taken
    then have found: "path_exists target_dir (?c counter) = Inr True"
      by (simp add: path_exists_def)
    then have step: "unique_loop target_dir name_stem extension counter
        = unique_loop target_dir name_stem extension (counter + 1)"
      by (simp add: unique_loop.simps [of target_dir name_stem extension counter])
    from "1.IH" [OF refl found] obtain k where k: "counter + 1 \<le> k"
      "\<forall>j. counter + 1 \<le> j \<and> j < k
          \<longrightarrow> ?c j \<notin> inaccessible target_dir \<and> ?c j \<in> set (present target_dir)"
      "?c k \<in> inaccessible target_dir
            \<and> unique_loop target_dir name_stem extension (counter + 1) = Inl (OSError (?c k))
          \<or> ?c k \<notin> inaccessible target_dir \<and> ?c k \<notin> set (present target_dir)
            \<and> unique_loop target_dir name_stem extension (counter + 1) = Inr (?c k)"
      by auto
    have "\<forall>j. counter \<le> j \<and> j < k
          \<longrightarrow> ?c j \<notin> inaccessible target_dir \<and> ?c j \<in> set (present target_dir)"
    proof (intro allI impI)
      fix j assume j: "counter \<le> j \<and> j < k"
      show "?c j \<notin> inaccessible target_dir \<and> ?c j \<in> set (present target_dir)"
      proof (cases "j = counter")
        case True
        with taken show ?thesis by simp
      next
        case False
        with j k(2) show ?thesis by simp
      qed
    qed
    with k(3) have "?goal k" by (simp only: step)
    moreover from k(1) have "counter \<le> k" by simp
    ultimately show ?thesis by blast
  qed
qed

text \<open>
  Claim C2 (corrected). Let "exists" mean what \<^verbatim>\<open>Path.exists()\<close> answers for a name in the
  target directory (it follows symbolic links, so an entry that is a broken link does not
  exist), the directory being fixed during the call and the names that exist finitely many.
  \<^verbatim>\<open>get_unique_filename\<close> raises when the check of the proposed name raises, and returns the
  proposed name unchanged when it does not exist. When it exists, let \<open>k \<ge> 1\<close> be the least
  counter for which \<^verbatim>\<open>stem(k)ext\<close> is not found to exist: the call returns \<^verbatim>\<open>stem(k)ext\<close> when
  that name does not exist and raises when its check raises. Such a \<open>k\<close> is always there:
  the call ends. Hence a returned name never exists at call time, and when the plain name
  and \<^verbatim>\<open>stem(1)ext\<close>, ..., \<^verbatim>\<open>stem(N-1)ext\<close> exist and \<^verbatim>\<open>stem(N)ext\<close> does not, the result is
  \<^verbatim>\<open>stem(N)ext\<close>.
\<close>

theorem get_unique_filename_least_free:
  "(filename \<in> inaccessible target_dir
      \<longrightarrow> get_unique_filename target_dir filename = Inl (OSError filename))
   \<and> (filename \<notin> inaccessible target_dir \<and> filename \<notin> set (present target_dir)
      \<longrightarrow> get_unique_filename target_dir filename = Inr filename)
   \<and> (filename \<notin> inaccessible target_dir \<and> filename \<in> set (present target_dir)
      \<longrightarrow> (\<exists>k\<ge>1.
            (\<forall>j. 1 \<le> j \<and> j < k
                \<longrightarrow> candidate (stem filename) (suffix filename) j \<notin> inaccessible target_dir
                    \<and> candidate (stem filename) (suffix filename) j \<in> set (present target_dir))
            \<and> (candidate (stem filename) (suffix filename) k \<in> inaccessible target_dir
                  \<and> get_unique_filename target_dir filename
                      = Inl (OSError (candidate (stem filename) (suffix filename) k))
                \<or> candidate (stem filename) (suffix filename) k \<notin> inaccessible target_dir
                  \<and> candidate (stem filename) (suffix filename) k \<notin> set (present target_dir)
                  \<and> get_unique_filename target_dir filename
                      = Inr (candidate (stem filename) (suffix filename) k))))
   \<and> (\<forall>new_filename. get_unique_filename target_dir filename = Inr new_filename
        \<longrightarrow> new_filename \<notin> inaccessible target_dir
            \<and> new_filename \<notin> set (present target_dir))
   \<and> (\<forall>N. 1 \<le> N \<and> filename \<notin> inaccessible target_dir
          \<and> filename \<in> set (present target_dir)
          \<and> (\<forall>j. 1 \<le> j \<and> j < N
                \<longrightarrow> candidate (stem filename) (suffix filename) j \<notin> inaccessible target_dir
                    \<and> candidate (stem filename) (suffix filename) j \<in> set (present target_dir))
          \<and> candidate (stem filename) (suffix filename) N \<notin> inaccessible target_dir
          \<and> candidate (stem filename) (suffix filename) N \<notin> set (present target_dir)
        \<longrightarrow> get_unique_filename target_dir filename
              = Inr (candidate (stem filename) (suffix filename) N))"
proof -
  let ?c = "candidate (stem filename) (suffix filename)"
  let ?r = "get_unique_filename target_dir filename"
  let ?bad = "inaccessible target_dir"
  let ?here = "set (present target_dir)"
  have raises: "?r = Inl (OSError filename)" if "filename \<in> ?bad"
    using that by (simp add: get_unique_filename_def path_exists_def)
  have free: "?r = Inr filename" if "filename \<notin> ?bad \<and> filename \<notin> ?here"
    using that by (simp add: get_unique_filename_def path_exists_def)
  have taken: "\<exists>k\<ge>1. (\<forall>j. 1 \<le> j \<and> j < k \<longrightarrow> ?c j \<notin> ?bad \<and> ?c j \<in> ?here)
      \<and> (?c k \<in> ?bad \<and> ?r = Inl (OSError (?c k))
          \<or> ?c k \<notin> ?bad \<and> ?c k \<notin> ?here \<and> ?r = Inr (?c k))"
    if "filename \<notin> ?bad \<and> filename \<in> ?here"
  proof -
    from that have "?r = unique_loop target_dir (stem filename) (suffix filename) 1"
      by (simp add: get_unique_filename_def path_exists_def)
    with unique_loop_least [of 1 "stem filename" "suffix filename" target_dir]
    show ?thesis by simp
  qed
  have fresh: "new_filename \<notin> ?bad \<and> new_filename \<notin> ?here"
    if r: "?r = Inr new_filename" for new_filename
  proof (cases "filename \<in> ?bad")
    case True
    with raises r show ?thesis by simp
  next
    case accessible: False
    show ?thesis
    proof (cases "filename \<in> ?here")
      case False
      with accessible free r show ?thesis by simp
    next
      case True
      with accessible taken obtain k where
        "?c k \<in> ?bad \<and> ?r = Inl (OSError (?c k))
          \<or> ?c k \<notin> ?bad \<and> ?c k \<notin> ?here \<and> ?r = Inr (?c k)"
        by blast
      with r show ?thesis by auto
    qed
  qed
  have contiguous: "?r = Inr (?c N)"
    if N: "1 \<le> N \<and> filename \<notin> ?bad \<and> filename \<in> ?here
          \<and> (\<forall>j. 1 \<le> j \<and> j < N \<longrightarrow> ?c j \<notin> ?bad \<and> ?c j \<in> ?here)
          \<and> ?c N \<notin> ?bad \<and> ?c N \<notin> ?here" for N
  proof -
    from N taken obtain k where k: "1 \<le> k"
      "\<forall>j. 1 \<le> j \<and> j < k \<longrightarrow> ?c j \<notin> ?bad \<and> ?c j \<in> ?here"
      "?c k \<in> ?bad \<and> ?r = Inl (OSError (?c k))
          \<or> ?c k \<notin> ?bad \<and> ?c k \<notin> ?here \<and> ?r = Inr (?c k)"
      by blast
    have "\<not> k < N" using N k(1,3) by blast
    moreover have "\<not> N < k" using N k(2) by blast
    ultimately have "k = N" by simp
    with k(3) N show ?thesis by blast
  qed
  from raises free taken fresh contiguous show ?thesis by blast
qed

theorem get_unique_filename_least_free_witness:
  "''photo.jpg'' \<notin> {''photo(4).jpg''}
   \<and> ''photo.jpg'' \<in> set [''photo.jpg'', ''photo(1).jpg'', ''photo(3).jpg'']
   \<and> candidate (stem ''photo.jpg'') (suffix ''photo.jpg'') 1
        \<in> set [''photo.jpg'', ''photo(1).jpg'', ''photo(3).jpg'']
   \<and> candidate (stem ''photo.jpg'') (suffix ''photo.jpg'') 2
        \<notin> set [''photo.jpg'', ''photo(1).jpg'', ''photo(3).jpg'']
   \<and> get_unique_filename
        \<lparr>present = [''photo.jpg'', ''photo(1).jpg'', ''photo(3).jpg''], broken = [],
         inaccessible = {''photo(4).jpg''}\<rparr> ''photo.jpg''
        = Inr ''photo(2).jpg''
   \<and> get_unique_filename
        \<lparr>present = [''photo.jpg'', ''photo(1).jpg'', ''photo(3).jpg''], broken = [],
         inaccessible = {''photo(4).jpg''}\<rparr> ''notes.txt''
        = Inr ''notes.txt''
   \<and> get_unique_filename
        \<lparr>present = [''photo.jpg'', ''photo(1).jpg'', ''photo(3).jpg''], broken = [],
         inaccessible = {''photo(4).jpg''}\<rparr> ''photo(4).jpg''
        = Inl (OSError ''photo(4).jpg'')"
proof -
  let ?names = "[''photo.jpg'', ''photo(1).jpg'', ''photo(3).jpg'']"
  let ?d = "\<lparr>present = ?names, broken = [], inaccessible = {''photo(4).jpg''}\<rparr>"
  let ?c = "candidate (stem ''photo.jpg'') (suffix ''photo.jpg'')"
  have st: "stem ''photo.jpg'' = ''photo''" "suffix ''photo.jpg'' = ''.jpg''"
    by (simp_all add: stem_def suffix_def)
  have c1: "?c 1 = ''photo(1).jpg''"
    by (simp add: st candidate_def str.simps digit_char_def)
  have c2: "?c 2 = ''photo(2).jpg''"
    by (simp add: st candidate_def str.simps digit_char_def)
  have ok: "''photo.jpg'' \<notin> {''photo(4).jpg''}" by simp
  have taken: "''photo.jpg'' \<in> set ?names" by simp
  have m1: "?c 1 \<in> set ?names" by (subst c1) simp
  have n1: "?c 1 \<notin> {''photo(4).jpg''}" by (subst c1) simp
  have free2: "?c 2 \<notin> set ?names" by (subst c2) simp
  have n2: "?c 2 \<notin> {''photo(4).jpg''}" by (subst c2) simp
  have below: "\<forall>j::nat. 1 \<le> j \<and> j < 2
      \<longrightarrow> ?c j \<notin> inaccessible ?d \<and> ?c j \<in> set (present ?d)"
  proof (intro allI impI)
    fix j :: nat assume "1 \<le> j \<and> j < 2"
    then have "j = 1" by simp
    with m1 n1 show "?c j \<notin> inaccessible ?d \<and> ?c j \<in> set (present ?d)" by simp
  qed
  note least = get_unique_filename_least_free
  have "get_unique_filename ?d ''photo.jpg'' = Inr (?c 2)"
    by (rule least [of "''photo.jpg''" ?d, THEN conjunct2, THEN conjunct2, THEN conjunct2,
          THEN conjunct2, THEN spec, THEN mp])
      (use ok taken below free2 n2 in simp)
  then have r1: "get_unique_filename ?d ''photo.jpg'' = Inr ''photo(2).jpg''"
    by (simp only: c2)
  have r2: "get_unique_filename ?d ''notes.txt'' = Inr ''notes.txt''"
    by (rule least [of "''notes.txt''" ?d, THEN conjunct2, THEN conjunct1, THEN mp]) simp
  have r3: "get_unique_filename ?d ''photo(4).jpg'' = Inl (OSError ''photo(4).jpg'')"
    by (rule least [of "''photo(4).jpg''" ?d, THEN conjunct1, THEN mp]) simp
  from ok taken m1 free2 r1 r2 r3 show ?thesis by (intro conjI)
qed

text \<open>
  The claim as stated speaks of the entries of the directory. It fails where an entry is
  a broken link: the proposed name is the name of an entry, yet it is returned unchanged,
  not with a counter.
\<close>

theorem get_unique_filename_broken_link_counterexample:
  "''photo.jpg'' \<in> set (broken linked_folder)
   \<and> get_unique_filename linked_folder ''photo.jpg'' = Inr ''photo.jpg''
   \<and> get_unique_filename linked_folder ''photo.jpg''
        \<noteq> Inr (candidate (stem ''photo.jpg'') (suffix ''photo.jpg'') 1)"
  by (simp add: linked_folder_def get_unique_filename_def path_exists_def candidate_def
      stem_def suffix_def)


section \<open>Properties of the organizer\<close>

lemma mkdir_cases:
  obtains
    (created) "map_of (entries f) c = None" "writable f"
      "mkdir_exist_ok f c = Inr (f\<lparr>entries := entries f @ [(c, Directory)],
         contents := (contents f)(c := []), dangling := (dangling f)(c := []),
         journal := journal f @ [CreateFolder c]\<rparr>)"
  | (denied) "map_of (entries f) c = None" "\<not> writable f"
      "mkdir_exist_ok f c = Inl (PermissionError c)"
  | (found) "map_of (entries f) c = Some Directory" "mkdir_exist_ok f c = Inr f"
  | (taken) k where "map_of (entries f) c = Some k" "k \<noteq> Directory"
      "mkdir_exist_ok f c = Inl (FileExistsError c)"
proof (cases "map_of (entries f) c")
  case None
  then show ?thesis using created denied by (cases "writable f") (simp_all add: mkdir_exist_ok_def)
next
  case (Some k)
  then show ?thesis using found taken by (cases k) (simp_all add: mkdir_exist_ok_def)
qed

lemma mkdir_Inr:
  assumes "mkdir_exist_ok f c = Inr f1"
  obtains
    (created) "map_of (entries f) c = None" "writable f"
      "f1 = f\<lparr>entries := entries f @ [(c, Directory)],
         contents := (contents f)(c := []), dangling := (dangling f)(c := []),
         journal := journal f @ [CreateFolder c]\<rparr>"
  | (found) "map_of (entries f) c = Some Directory" "f1 = f"
  using assms by (auto simp: mkdir_exist_ok_def split: option.splits kind.splits if_splits)


lemma mkdir_is_file: "mkdir_exist_ok f c = Inr f1 \<Longrightarrow> is_file f1 m = is_file f m"
  by (erule mkdir_Inr) (auto simp: is_file_def map_add_def split: option.splits)


lemma mkdir_journal:
  "mkdir_exist_ok f c = Inr f1
    \<Longrightarrow> \<exists>pre. journal f1 = journal f @ pre \<and> set pre \<subseteq> {CreateFolder c}"
  by (erule mkdir_Inr) simp_all

lemma mkdir_flags:
  "mkdir_exist_ok f c = Inr f1
    \<Longrightarrow> desktop_exists f1 = desktop_exists f \<and> listable f1 = listable f
      \<and> writable f1 = writable f \<and> unreachable f1 = unreachable f
      \<and> unmovable f1 = unmovable f \<and> leaves_copy f1 = leaves_copy f"
  by (erule mkdir_Inr) simp_all

lemma process_item_skip:
  "\<not> eligible (fs s) name \<Longrightarrow> process_item s name = Inr s"
  by (auto simp: eligible_def process_item_def)

lemma process_item_eligible:
  assumes "eligible (fs s) name"
  shows "process_item s name =
    (case mkdir_exist_ok (fs s) (category_of name) of
       Inl e \<Rightarrow> Inl (e, s)
     | Inr f1 \<Rightarrow>
         (case get_unique_filename (folder f1 (category_of name)) name of
            Inl e \<Rightarrow> Inl (e, s\<lparr>fs := f1\<rparr>)
          | Inr unique_filename \<Rightarrow>
              (case shutil_move f1 name (category_of name) unique_filename of
                 Inr f2 \<Rightarrow>
                   Inr (s\<lparr>fs := f2,
                          move_count := increment (move_count s) (category_of name),
                          out := out s @ [Moved name (category_of name) unique_filename]\<rparr>)
               | Inl (e, f2) \<Rightarrow>
                   Inr (s\<lparr>fs := f2, out := out s @ [ErrorMoving name e]\<rparr>))))"
  unfolding category_of_def using assms by (simp add: eligible_def process_item_def Let_def)

lemma process_item_cases:
  obtains
    (skipped) "\<not> eligible (fs s) n" "process_item s n = Inr s"
  | (mkdir_failed) e where "eligible (fs s) n"
      "mkdir_exist_ok (fs s) (category_of n) = Inl e"
      "process_item s n = Inl (e, s)"
  | (probe_failed) f1 e where "eligible (fs s) n"
      "mkdir_exist_ok (fs s) (category_of n) = Inr f1"
      "get_unique_filename (folder f1 (category_of n)) n = Inl e"
      "process_item s n = Inl (e, s\<lparr>fs := f1\<rparr>)"
  | (move_failed) f1 u where "eligible (fs s) n"
      "mkdir_exist_ok (fs s) (category_of n) = Inr f1"
      "get_unique_filename (folder f1 (category_of n)) n = Inr u"
      "n \<in> unmovable f1" "n \<notin> leaves_copy f1"
      "process_item s n = Inr (s\<lparr>fs := f1, out := out s @ [ErrorMoving n (MoveError n)]\<rparr>)"
  | (copy_left) f1 u where "eligible (fs s) n"
      "mkdir_exist_ok (fs s) (category_of n) = Inr f1"
      "get_unique_filename (folder f1 (category_of n)) n = Inr u"
      "n \<in> unmovable f1" "n \<in> leaves_copy f1"
      "process_item s n =
         Inr (s\<lparr>fs := f1\<lparr>contents := (contents f1)(category_of n := u # contents f1 (category_of n)),
                      dangling := (dangling f1)(category_of n :=
                        removeAll u (dangling f1 (category_of n))),
                      journal := journal f1 @ [LeaveCopy n (category_of n) u]\<rparr>,
                out := out s @ [ErrorMoving n (MoveError n)]\<rparr>)"
  | (moved) f1 u where "eligible (fs s) n"
      "mkdir_exist_ok (fs s) (category_of n) = Inr f1"
      "get_unique_filename (folder f1 (category_of n)) n = Inr u"
      "n \<notin> unmovable f1"
      "process_item s n =
         Inr (s\<lparr>fs := f1\<lparr>entries := filter (\<lambda>(m, k). m \<noteq> n) (entries f1),
                      contents := (contents f1)(category_of n := u # contents f1 (category_of n)),
                      dangling := (dangling f1)(category_of n :=
                        removeAll u (dangling f1 (category_of n))),
                      journal := journal f1 @ [MoveFile n (category_of n) u]\<rparr>,
                move_count := increment (move_count s) (category_of n),
                out := out s @ [Moved n (category_of n) u]\<rparr>)"
proof (cases "eligible (fs s) n")
  case False
  then show ?thesis by (rule skipped) (simp add: process_item_skip False)
next
  case True
  note eq = process_item_eligible [OF True]
  show ?thesis
  proof (cases "mkdir_exist_ok (fs s) (category_of n)")
    case (Inl e)
    with eq have "process_item s n = Inl (e, s)" by simp
    with True Inl show ?thesis by (rule mkdir_failed)
  next
    case mk: (Inr f1)
    show ?thesis
    proof (cases "get_unique_filename (folder f1 (category_of n)) n")
      case (Inl e)
      with eq mk have "process_item s n = Inl (e, s\<lparr>fs := f1\<rparr>)" by simp
      with True mk Inl show ?thesis by (rule probe_failed)
    next
      case gu: (Inr u)
      show ?thesis
      proof (cases "n \<in> unmovable f1")
        case False
        with eq mk gu have "process_item s n =
         Inr (s\<lparr>fs := f1\<lparr>entries := filter (\<lambda>(m, k). m \<noteq> n) (entries f1),
                      contents := (contents f1)(category_of n := u # contents f1 (category_of n)),
                      dangling := (dangling f1)(category_of n :=
                        removeAll u (dangling f1 (category_of n))),
                      journal := journal f1 @ [MoveFile n (category_of n) u]\<rparr>,
                move_count := increment (move_count s) (category_of n),
                out := out s @ [Moved n (category_of n) u]\<rparr>)"
          by (simp add: shutil_move_def)
        with True mk gu False show ?thesis by (rule moved)
      next
        case stuck: True
        show ?thesis
        proof (cases "n \<in> leaves_copy f1")
          case False
          with eq mk gu stuck have "process_item s n =
              Inr (s\<lparr>fs := f1, out := out s @ [ErrorMoving n (MoveError n)]\<rparr>)"
            by (simp add: shutil_move_def)
          with \<open>eligible (fs s) n\<close> mk gu stuck False show ?thesis by (rule move_failed)
        next
          case True
          with eq mk gu stuck have "process_item s n =
             Inr (s\<lparr>fs := f1\<lparr>contents := (contents f1)(category_of n := u # contents f1 (category_of n)),
                      dangling := (dangling f1)(category_of n :=
                        removeAll u (dangling f1 (category_of n))),
                      journal := journal f1 @ [LeaveCopy n (category_of n) u]\<rparr>,
                out := out s @ [ErrorMoving n (MoveError n)]\<rparr>)"
            by (simp add: shutil_move_def)
          with \<open>eligible (fs s) n\<close> mk gu stuck True show ?thesis by (rule copy_left)
        qed
      qed
    qed
  qed
qed

lemma map_of_filter_other:
  "m \<noteq> n \<Longrightarrow> map_of (filter (\<lambda>(x, k). x \<noteq> n) es) m = map_of es m"
  by (induction es) auto

lemma map_of_filter_self: "map_of (filter (\<lambda>(x, k). x \<noteq> n) es) n = None"
  by (induction es) auto

lemma is_file_filter: "is_file (f\<lparr>entries := filter (\<lambda>(x, k). x \<noteq> n) (entries f)\<rparr>) m \<Longrightarrow> is_file f m"
  by (cases "m = n") (simp_all add: is_file_def map_of_filter_self map_of_filter_other)

lemma category_of_label: "category_of n \<in> set categories"
proof -
  have "''Others'' \<in> fst ` set FILE_CATEGORIES" by (simp add: FILE_CATEGORIES_def)
  then have "insert ''Others'' (fst ` set FILE_CATEGORIES) = fst ` set FILE_CATEGORIES"
    by (rule insert_absorb)
  with first_category_range [of FILE_CATEGORIES "lower (suffix n)"]
  show ?thesis by (simp add: category_of_def get_category_def categories_def)
qed


lemma process_items_append:
  "process_items s (xs @ ys) =
    (case process_items s xs of Inl crash \<Rightarrow> Inl crash | Inr s1 \<Rightarrow> process_items s1 ys)"
  by (induction xs arbitrary: s) (auto split: sum.splits)

lemma reached_simps: "reached (Inl (e, s)) = s" "reached (Inr s) = s"
  by (simp_all add: reached_def)

lemma organize_desktop_reached:
  "fs (reached (organize_desktop f)) =
    (if desktop_exists f \<and> listable f
     then fs (reached (process_items \<lparr>fs = f, move_count = [], out = [Organizing]\<rparr>
            (map fst (entries f))))
     else f)"
  by (auto simp: organize_desktop_def reached_def split: sum.splits)


lemma evolvesI:
  assumes "\<And>n. is_file g n \<Longrightarrow> is_file f n"
    and "desktop_exists g = desktop_exists f" and "listable g = listable f"
    and "writable g = writable f" and "unreachable g = unreachable f"
    and "unmovable g = unmovable f" and "leaves_copy g = leaves_copy f"
    and "journal g = journal f @ acts"
    and "\<And>a. a \<in> set acts \<Longrightarrow>
          (\<exists>c \<in> set categories. a = CreateFolder c)
        \<or> (\<exists>n u. (a = MoveFile n (category_of n) u \<or> a = LeaveCopy n (category_of n) u)
              \<and> eligible f n \<and> (\<exists>d. get_unique_filename d n = Inr u))"
    and "\<And>c. c \<notin> set categories \<Longrightarrow> contents g c = contents f c \<and> dangling g c = dangling f c"
    and "set (entries g) \<subseteq> set (entries f) \<union> {(c, Directory) |c. c \<in> set categories}"
  shows "evolves f g"
proof -
  from assms(8,9) have "\<exists>acts. journal g = journal f @ acts
      \<and> (\<forall>a \<in> set acts.
            (\<exists>c \<in> set categories. a = CreateFolder c)
          \<or> (\<exists>n u. (a = MoveFile n (category_of n) u \<or> a = LeaveCopy n (category_of n) u)
                \<and> eligible f n \<and> (\<exists>d. get_unique_filename d n = Inr u)))"
    by (intro exI [of _ acts] conjI ballI)
  moreover from assms(10) have "\<forall>c. c \<notin> set categories
      \<longrightarrow> contents g c = contents f c \<and> dangling g c = dangling f c"
    by simp
  moreover from assms(1) have "\<forall>n. is_file g n \<longrightarrow> is_file f n" by simp
  ultimately show ?thesis using assms(2-7,11) unfolding evolves_def by (intro conjI)
qed

lemma evolves_journal:
  assumes "evolves f g"
  shows "\<exists>acts. journal g = journal f @ acts
      \<and> (\<forall>a \<in> set acts.
            (\<exists>c \<in> set categories. a = CreateFolder c)
          \<or> (\<exists>n u. (a = MoveFile n (category_of n) u \<or> a = LeaveCopy n (category_of n) u)
                \<and> eligible f n \<and> (\<exists>d. get_unique_filename d n = Inr u)))"
  using assms unfolding evolves_def by (elim conjE)

lemma evolves_frame:
  assumes "evolves f g"
  shows "\<And>n. is_file g n \<Longrightarrow> is_file f n"
    and "desktop_exists g = desktop_exists f" and "listable g = listable f"
    and "writable g = writable f" and "unreachable g = unreachable f"
    and "unmovable g = unmovable f" and "leaves_copy g = leaves_copy f"
    and "\<And>c. c \<notin> set categories \<Longrightarrow> contents g c = contents f c \<and> dangling g c = dangling f c"
    and "set (entries g) \<subseteq> set (entries f) \<union> {(c, Directory) |c. c \<in> set categories}"
  using assms unfolding evolves_def by simp_all

lemma evolves_refl: "evolves f f"
  by (rule evolvesI [where acts = "[]"]) simp_all

lemma evolves_trans:
  assumes fg: "evolves f g" and gh: "evolves g h"
  shows "evolves f h"
proof -
  from evolves_journal [OF fg] obtain a1 where a1: "journal g = journal f @ a1"
    "\<forall>a \<in> set a1.
          (\<exists>c \<in> set categories. a = CreateFolder c)
        \<or> (\<exists>n u. (a = MoveFile n (category_of n) u \<or> a = LeaveCopy n (category_of n) u)
              \<and> eligible f n \<and> (\<exists>d. get_unique_filename d n = Inr u))"
    by (elim exE conjE) (rule that)
  from evolves_journal [OF gh] obtain a2 where a2: "journal h = journal g @ a2"
    "\<forall>a \<in> set a2.
          (\<exists>c \<in> set categories. a = CreateFolder c)
        \<or> (\<exists>n u. (a = MoveFile n (category_of n) u \<or> a = LeaveCopy n (category_of n) u)
              \<and> eligible g n \<and> (\<exists>d. get_unique_filename d n = Inr u))"
    by (elim exE conjE) (rule that)
  note F = evolves_frame [OF fg] and G = evolves_frame [OF gh]
  have older: "eligible f n" if "eligible g n" for n
    using that F(1) [of n] by (simp add: eligible_def)
  show ?thesis
  proof (rule evolvesI [where acts = "a1 @ a2"])
    fix n assume "is_file h n"
    then have "is_file g n" by (rule G(1))
    then show "is_file f n" by (rule F(1))
  next
    show "journal h = journal f @ a1 @ a2" using a1(1) a2(1) by simp
  next
    fix a assume "a \<in> set (a1 @ a2)"
    then consider "a \<in> set a1" | "a \<in> set a2" by auto
    then show "(\<exists>c \<in> set categories. a = CreateFolder c)
        \<or> (\<exists>n u. (a = MoveFile n (category_of n) u \<or> a = LeaveCopy n (category_of n) u)
              \<and> eligible f n \<and> (\<exists>d. get_unique_filename d n = Inr u))"
    proof cases
      case 1
      with a1(2) show ?thesis by (rule bspec)
    next
      case 2
      from a2(2) 2 have "(\<exists>c \<in> set categories. a = CreateFolder c)
        \<or> (\<exists>n u. (a = MoveFile n (category_of n) u \<or> a = LeaveCopy n (category_of n) u)
              \<and> eligible g n \<and> (\<exists>d. get_unique_filename d n = Inr u))"
        by (rule bspec)
      then show ?thesis
      proof
        assume "\<exists>c \<in> set categories. a = CreateFolder c"
        then show ?thesis ..
      next
        assume "\<exists>n u. (a = MoveFile n (category_of n) u \<or> a = LeaveCopy n (category_of n) u)
              \<and> eligible g n \<and> (\<exists>d. get_unique_filename d n = Inr u)"
        then obtain n u d where nu:
          "a = MoveFile n (category_of n) u \<or> a = LeaveCopy n (category_of n) u"
          "eligible g n" "get_unique_filename d n = Inr u"
          by (elim exE conjE) (rule that)
        from nu(2) have "eligible f n" by (rule older)
        with nu(1,3) have "\<exists>n u. (a = MoveFile n (category_of n) u
              \<or> a = LeaveCopy n (category_of n) u)
            \<and> eligible f n \<and> (\<exists>d. get_unique_filename d n = Inr u)"
          by blast
        then show ?thesis ..
      qed
    qed
  next
    fix c assume "c \<notin> set categories"
    with F(8) [of c] G(8) [of c]
    show "contents h c = contents f c \<and> dangling h c = dangling f c" by simp
  next
    from F(9) G(9)
    show "set (entries h) \<subseteq> set (entries f) \<union> {(c, Directory) |c. c \<in> set categories}"
      by (rule_tac subset_trans [OF G(9)]) auto
  qed (simp_all add: F G)
qed

lemma evolves_mkdir:
  assumes "mkdir_exist_ok f c = Inr f1" and label: "c \<in> set categories"
  shows "evolves f f1"
  using assms(1)
proof (cases rule: mkdir_Inr)
  case found
  then show ?thesis by (simp add: evolves_refl)
next
  case created
  show ?thesis
  proof (rule evolvesI [where acts = "[CreateFolder c]"])
    fix n assume "is_file f1 n"
    with assms(1) show "is_file f n" by (simp add: mkdir_is_file)
  next
    fix a assume "a \<in> set [CreateFolder c]"
    with label have "\<exists>c \<in> set categories. a = CreateFolder c" by simp
    then show "(\<exists>c \<in> set categories. a = CreateFolder c)
        \<or> (\<exists>n u. (a = MoveFile n (category_of n) u \<or> a = LeaveCopy n (category_of n) u)
              \<and> eligible f n \<and> (\<exists>d. get_unique_filename d n = Inr u))" ..
  next
    fix c' assume "c' \<notin> set categories"
    with label have "c' \<noteq> c" by auto
    with created(3) show "contents f1 c' = contents f c' \<and> dangling f1 c' = dangling f c'"
      by simp
  next
    from created(3) label
    show "set (entries f1) \<subseteq> set (entries f) \<union> {(c, Directory) |c. c \<in> set categories}"
      by auto
  qed (simp_all add: created(3))
qed

lemma evolves_transfer:
  assumes el: "eligible f n" and name: "get_unique_filename d n = Inr u"
    and act: "a = MoveFile n (category_of n) u \<or> a = LeaveCopy n (category_of n) u"
    and g: "g = f\<lparr>entries := es,
               contents := (contents f)(category_of n := u # contents f (category_of n)),
               dangling := (dangling f)(category_of n := removeAll u (dangling f (category_of n))),
               journal := journal f @ [a]\<rparr>"
    and es: "es = entries f \<or> es = filter (\<lambda>(m, k). m \<noteq> n) (entries f)"
  shows "evolves f g"
proof (rule evolvesI [where acts = "[a]"])
  fix m assume "is_file g m"
  with g have m: "map_of es m = Some RegularFile" by (simp add: is_file_def)
  from es show "is_file f m"
  proof
    assume "es = entries f"
    with m show ?thesis by (simp add: is_file_def)
  next
    assume "es = filter (\<lambda>(m, k). m \<noteq> n) (entries f)"
    with m show ?thesis
      by (cases "m = n") (simp_all add: is_file_def map_of_filter_self map_of_filter_other)
  qed
next
  fix b assume "b \<in> set [a]"
  with act have "b = MoveFile n (category_of n) u \<or> b = LeaveCopy n (category_of n) u" by simp
  moreover from name have "\<exists>d. get_unique_filename d n = Inr u" ..
  ultimately have "\<exists>n u. (b = MoveFile n (category_of n) u \<or> b = LeaveCopy n (category_of n) u)
              \<and> eligible f n \<and> (\<exists>d. get_unique_filename d n = Inr u)"
    using el by blast
  then show "(\<exists>c \<in> set categories. b = CreateFolder c)
        \<or> (\<exists>n u. (b = MoveFile n (category_of n) u \<or> b = LeaveCopy n (category_of n) u)
              \<and> eligible f n \<and> (\<exists>d. get_unique_filename d n = Inr u))" ..
next
  fix c assume "c \<notin> set categories"
  with category_of_label [of n] have "c \<noteq> category_of n" by auto
  with g show "contents g c = contents f c \<and> dangling g c = dangling f c" by simp
next
  from es g
  show "set (entries g) \<subseteq> set (entries f) \<union> {(c, Directory) |c. c \<in> set categories}"
    by auto
qed (simp_all add: g)

lemma process_item_evolves: "evolves (fs s) (fs (reached (process_item s n)))"
proof (cases rule: process_item_cases [of s n])
  case skipped
  then show ?thesis by (simp add: reached_def evolves_refl)
next
  case (mkdir_failed e)
  then show ?thesis by (simp add: reached_def evolves_refl)
next
  case (probe_failed f1 e)
  from probe_failed(2) category_of_label have "evolves (fs s) f1" by (rule evolves_mkdir)
  with probe_failed(4) show ?thesis by (simp add: reached_def)
next
  case (move_failed f1 u)
  from move_failed(2) category_of_label have "evolves (fs s) f1" by (rule evolves_mkdir)
  with move_failed(6) show ?thesis by (simp add: reached_def)
next
  case (copy_left f1 u)
  let ?g = "f1\<lparr>contents := (contents f1)(category_of n := u # contents f1 (category_of n)),
                      dangling := (dangling f1)(category_of n :=
                        removeAll u (dangling f1 (category_of n))),
                      journal := journal f1 @ [LeaveCopy n (category_of n) u]\<rparr>"
  from copy_left(2) category_of_label have 1: "evolves (fs s) f1" by (rule evolves_mkdir)
  from copy_left(1,2) have el: "eligible f1 n" by (simp add: eligible_def mkdir_is_file)
  have "evolves f1 ?g"
    by (rule evolves_transfer [OF el copy_left(3), where es = "entries f1"
          and a = "LeaveCopy n (category_of n) u"]) simp_all
  with 1 have "evolves (fs s) ?g" by (rule evolves_trans)
  with copy_left(6) show ?thesis by (simp add: reached_def)
next
  case (moved f1 u)
  let ?g = "f1\<lparr>entries := filter (\<lambda>(m, k). m \<noteq> n) (entries f1),
                      contents := (contents f1)(category_of n := u # contents f1 (category_of n)),
                      dangling := (dangling f1)(category_of n :=
                        removeAll u (dangling f1 (category_of n))),
                      journal := journal f1 @ [MoveFile n (category_of n) u]\<rparr>"
  from moved(2) category_of_label have 1: "evolves (fs s) f1" by (rule evolves_mkdir)
  from moved(1,2) have el: "eligible f1 n" by (simp add: eligible_def mkdir_is_file)
  have "evolves f1 ?g"
    by (rule evolves_transfer [OF el moved(3), where es = "filter (\<lambda>(m, k). m \<noteq> n) (entries f1)"
          and a = "MoveFile n (category_of n) u"]) simp_all
  with 1 have "evolves (fs s) ?g" by (rule evolves_trans)
  with moved(5) show ?thesis by (simp add: reached_def)
qed

lemma process_items_evolves: "evolves (fs s) (fs (reached (process_items s items)))"
proof (induction items arbitrary: s)
  case Nil
  show ?case by (simp add: reached_def evolves_refl)
next
  case (Cons item items)
  show ?case
  proof (cases "process_item s item")
    case (Inl crash)
    with process_item_evolves [of s item] show ?thesis by simp
  next
    case (Inr s1)
    with process_item_evolves [of s item] have "evolves (fs s) (fs s1)"
      by (simp add: reached_def)
    moreover have "evolves (fs s1) (fs (reached (process_items s1 items)))" by (rule Cons.IH)
    ultimately have "evolves (fs s) (fs (reached (process_items s1 items)))"
      by (rule evolves_trans)
    with Inr show ?thesis by simp
  qed
qed

lemma organize_desktop_evolves: "evolves f (fs (reached (organize_desktop f)))"
proof (cases "desktop_exists f \<and> listable f")
  case False
  then have "fs (reached (organize_desktop f)) = f"
    by (auto simp: organize_desktop_reached)
  then show ?thesis by (simp add: evolves_refl)
next
  case True
  then have "fs (reached (organize_desktop f)) =
      fs (reached (process_items \<lparr>fs = f, move_count = [], out = [Organizing]\<rparr>
            (map fst (entries f))))"
    by (simp add: organize_desktop_reached)
  with process_items_evolves [of "\<lparr>fs = f, move_count = [], out = [Organizing]\<rparr>"
      "map fst (entries f)"]
  show ?thesis by simp
qed


lemma sample_categories:
  "category_of ''photo.jpg'' = ''Images''" "category_of ''report.pdf'' = ''PDFs''"
  "category_of ''README'' = ''Others''" "category_of ''locked.txt'' = ''Documents''"
  "category_of ''locked.pdf'' = ''PDFs''" "category_of ''b.jpg'' = ''Images''"
  by (simp_all add: category_of_def suffix_def get_category_def FILE_CATEGORIES_def lower_def
      lower_char_def)

lemmas step_simps =
  organize_desktop_def process_item_skip process_item_eligible eligible_def is_file_def
  IGNORED_FILES_def startswith_def mkdir_exist_ok_def folder_def path_exists_def
  get_unique_filename_def unique_loop.simps candidate_def str.simps digit_char_def stem_def
  suffix_def shutil_move_def summary_def count_of_def sample_categories

lemma sample_run:
  "organize_desktop sample_desktop =
    Inr \<lparr>fs = \<lparr>desktop_exists = True, listable = True, writable = True,
               entries = [(''.DS_Store'', RegularFile), (''locked.txt'', RegularFile),
                          (''Images'', Directory), (''PDFs'', Directory),
                          (''Documents'', Directory), (''Others'', Directory)],
               contents = (\<lambda>folder. if folder = ''Images'' then [''photo.jpg''] else [])
                 (''Images'' := [''photo(1).jpg'', ''photo.jpg''],
                  ''PDFs'' := [''report.pdf''],
                  ''Documents'' := [],
                  ''Others'' := [''README'']),
               dangling = (\<lambda>folder. [])
                 (''Images'' := [], ''PDFs'' := [], ''Documents'' := [], ''Others'' := []),
               unreachable = {},
               unmovable = {''locked.txt''},
               leaves_copy = {},
               journal = [MoveFile ''photo.jpg'' ''Images'' ''photo(1).jpg'',
                          CreateFolder ''PDFs'',
                          MoveFile ''report.pdf'' ''PDFs'' ''report.pdf'',
                          CreateFolder ''Documents'',
                          CreateFolder ''Others'',
                          MoveFile ''README'' ''Others'' ''README'']\<rparr>,
         move_count = [(''Images'', 1), (''PDFs'', 1), (''Others'', 1)],
         out = [Organizing, Moved ''photo.jpg'' ''Images'' ''photo(1).jpg'',
                Moved ''report.pdf'' ''PDFs'' ''report.pdf'',
                ErrorMoving ''locked.txt'' (MoveError ''locked.txt''),
                Moved ''README'' ''Others'' ''README'',
                Rule, SummaryTitle, Rule,
                CategoryLine ''Images'' 1, CategoryLine ''Others'' 1, CategoryLine ''PDFs'' 1,
                TotalLine 3]\<rparr>"
  by (simp add: sample_desktop_def step_simps)

lemma blocked_run:
  "organize_desktop blocked_desktop =
    Inl (FileExistsError ''Images'',
         \<lparr>fs = \<lparr>desktop_exists = True, listable = True, writable = True,
                 entries = [(''locked.pdf'', RegularFile), (''b.jpg'', RegularFile),
                            (''Images'', RegularFile), (''PDFs'', Directory)],
                 contents = (\<lambda>folder. [])(''PDFs'' := []),
                 dangling = (\<lambda>folder. [])(''PDFs'' := []),
                 unreachable = {},
                 unmovable = {''locked.pdf''},
                 leaves_copy = {},
                 journal = [CreateFolder ''PDFs'']\<rparr>,
           move_count = [],
           out = [Organizing, ErrorMoving ''locked.pdf'' (MoveError ''locked.pdf'')]\<rparr>)"
  by (simp add: blocked_desktop_def step_simps)

lemma blocked_left:
  "reached (organize_desktop blocked_desktop) =
     \<lparr>fs = \<lparr>desktop_exists = True, listable = True, writable = True,
             entries = [(''locked.pdf'', RegularFile), (''b.jpg'', RegularFile),
                        (''Images'', RegularFile), (''PDFs'', Directory)],
             contents = (\<lambda>folder. [])(''PDFs'' := []),
             dangling = (\<lambda>folder. [])(''PDFs'' := []),
             unreachable = {},
             unmovable = {''locked.pdf''},
             leaves_copy = {},
             journal = [CreateFolder ''PDFs'']\<rparr>,
       move_count = [],
       out = [Organizing, ErrorMoving ''locked.pdf'' (MoveError ''locked.pdf'')]\<rparr>"
  by (simp add: blocked_run reached_simps)

lemma blocked_rerun:
  "organize_desktop (fs (reached (organize_desktop blocked_desktop))) =
    Inl (FileExistsError ''Images'', reached (organize_desktop blocked_desktop))"
  by (simp add: blocked_left) (simp add: step_simps)

lemma locked_run:
  "organize_desktop locked_desktop =
    Inr \<lparr>fs = \<lparr>desktop_exists = True, listable = True, writable = True,
               entries = [(''locked.txt'', RegularFile), (''Documents'', Directory)],
               contents = (\<lambda>folder. [])(''Documents'' := [''locked.txt'']),
               dangling = (\<lambda>folder. [])(''Documents'' := []),
               unreachable = {},
               unmovable = {''locked.txt''},
               leaves_copy = {''locked.txt''},
               journal = [LeaveCopy ''locked.txt'' ''Documents'' ''locked.txt'']\<rparr>,
         move_count = [],
         out = [Organizing, ErrorMoving ''locked.txt'' (MoveError ''locked.txt''),
                Rule, SummaryTitle, Rule, NoFilesMoved]\<rparr>"
  by (simp add: locked_desktop_def step_simps)


text \<open>
  Claim C3 (corrected). If the desktop directory does not exist, the run prints the error
  once, changes nothing in the file system, moves nothing and returns at once; the
  script then ends normally, so the exit status is 0 (the program never asks for another
  one).
\<close>

theorem missing_desktop_returns_normally:
  "\<not> desktop_exists f \<Longrightarrow>
     organize_desktop f = Inr \<lparr>fs = f, move_count = [], out = [DesktopNotFound]\<rparr>
     \<and> exit_status f = 0"
  by (simp add: organize_desktop_def exit_status_def)

theorem missing_desktop_returns_normally_witness:
  "\<not> desktop_exists no_desktop
   \<and> organize_desktop no_desktop = Inr \<lparr>fs = no_desktop, move_count = [], out = [DesktopNotFound]\<rparr>
   \<and> exit_status no_desktop = 0"
proof -
  have missing: "\<not> desktop_exists no_desktop" by (simp add: no_desktop_def)
  from missing missing_desktop_returns_normally [OF missing] show ?thesis by (intro conjI) simp_all
qed

text \<open>
  The claim as stated asks for a non-zero exit status; on a missing desktop the status
  is 0.
\<close>

theorem missing_desktop_exit_status_counterexample:
  "\<not> (\<not> desktop_exists no_desktop \<longrightarrow> exit_status no_desktop \<noteq> 0)"
  by (simp add: no_desktop_def organize_desktop_def exit_status_def)

text \<open>
  Claim C5. An entry of the snapshot is skipped exactly when it is not a regular file, or
  its name is in the ignore set, or its name starts with a dot: in these cases, and in no
  other, the loop body leaves the whole state as it was (the file system with its journal
  of mutations, the tally and the output), so the entry is neither classified, nor moved,
  nor counted. Over a whole run, every file that was moved is a regular file whose name is
  not ignored and does not start with a dot.
\<close>

theorem skipped_exactly_when_filtered:
  "(process_item s name = Inr s
      \<longleftrightarrow> \<not> is_file (fs s) name \<or> name \<in> set IGNORED_FILES \<or> startswith name ''.'')
   \<and> (\<forall>category new_name.
         MoveFile name category new_name \<in> set (journal (fs (reached (organize_desktop f))))
         \<and> MoveFile name category new_name \<notin> set (journal f)
         \<longrightarrow> is_file f name \<and> name \<notin> set IGNORED_FILES \<and> \<not> startswith name ''.'')"
proof (rule conjI, rule iffI, goal_cases)
  case 2
  assume "\<not> is_file (fs s) name \<or> name \<in> set IGNORED_FILES \<or> startswith name ''.''"
  then have "\<not> eligible (fs s) name" by (auto simp: eligible_def)
  then show "process_item s name = Inr s" by (rule process_item_skip)
next
  case 1
  assume same: "process_item s name = Inr s"
  have "\<not> eligible (fs s) name"
  proof (cases rule: process_item_cases [of s name])
    case skipped
    then show ?thesis by simp
  next
    case (mkdir_failed e)
    with same show ?thesis by simp
  next
    case (probe_failed f1 e)
    with same show ?thesis by simp
  next
    case (move_failed f1 u)
    with same have "s\<lparr>fs := f1, out := out s @ [ErrorMoving name (MoveError name)]\<rparr> = s"
      by simp
    then have "out (s\<lparr>fs := f1, out := out s @ [ErrorMoving name (MoveError name)]\<rparr>) = out s"
      by (rule arg_cong)
    then show ?thesis by simp
  next
    case (copy_left f1 u)
    let ?g = "f1\<lparr>contents := (contents f1)(category_of name := u # contents f1 (category_of name)),
                      dangling := (dangling f1)(category_of name :=
                        removeAll u (dangling f1 (category_of name))),
                      journal := journal f1 @ [LeaveCopy name (category_of name) u]\<rparr>"
    from copy_left(6) same
    have "s\<lparr>fs := ?g, out := out s @ [ErrorMoving name (MoveError name)]\<rparr> = s"
      by simp
    then have "out (s\<lparr>fs := ?g, out := out s @ [ErrorMoving name (MoveError name)]\<rparr>) = out s"
      by (rule arg_cong)
    then show ?thesis by simp
  next
    case (moved f1 u)
    let ?g = "f1\<lparr>entries := filter (\<lambda>(m, k). m \<noteq> name) (entries f1),
                      contents := (contents f1)(category_of name := u # contents f1 (category_of name)),
                      dangling := (dangling f1)(category_of name :=
                        removeAll u (dangling f1 (category_of name))),
                      journal := journal f1 @ [MoveFile name (category_of name) u]\<rparr>"
    from moved(5) same
    have "s\<lparr>fs := ?g, move_count := increment (move_count s) (category_of name),
            out := out s @ [Moved name (category_of name) u]\<rparr> = s"
      by simp
    then have "out (s\<lparr>fs := ?g, move_count := increment (move_count s) (category_of name),
            out := out s @ [Moved name (category_of name) u]\<rparr>) = out s"
      by (rule arg_cong)
    then show ?thesis by simp
  qed
  then show "\<not> is_file (fs s) name \<or> name \<in> set IGNORED_FILES \<or> startswith name ''.''"
    by (auto simp: eligible_def)
next
  case 3
  have "is_file f name \<and> name \<notin> set IGNORED_FILES \<and> \<not> startswith name ''.''"
    if moved: "MoveFile name category new_name \<in> set (journal (fs (reached (organize_desktop f))))
         \<and> MoveFile name category new_name \<notin> set (journal f)" for category new_name
  proof -
    from evolves_journal [OF organize_desktop_evolves [of f]] obtain acts
      where acts: "journal (fs (reached (organize_desktop f))) = journal f @ acts"
        "\<forall>a \<in> set acts.
            (\<exists>c \<in> set categories. a = CreateFolder c)
          \<or> (\<exists>n u. (a = MoveFile n (category_of n) u \<or> a = LeaveCopy n (category_of n) u)
                \<and> eligible f n \<and> (\<exists>d. get_unique_filename d n = Inr u))"
      by (elim exE conjE) (rule that)
    from moved acts(1) have "MoveFile name category new_name \<in> set acts" by auto
    with acts(2)
    have "(\<exists>c \<in> set categories. MoveFile name category new_name = CreateFolder c)
          \<or> (\<exists>n u. (MoveFile name category new_name = MoveFile n (category_of n) u
                  \<or> MoveFile name category new_name = LeaveCopy n (category_of n) u)
                \<and> eligible f n \<and> (\<exists>d. get_unique_filename d n = Inr u))"
      by (rule bspec)
    then have "eligible f name" by auto
    then show ?thesis by (simp add: eligible_def)
  qed
  then show ?case by blast
qed

theorem skipped_exactly_when_filtered_witness:
  "process_item \<lparr>fs = sample_desktop, move_count = [], out = []\<rparr> ''.DS_Store''
      = Inr \<lparr>fs = sample_desktop, move_count = [], out = []\<rparr>
   \<and> process_item \<lparr>fs = sample_desktop, move_count = [], out = []\<rparr> ''Images''
      = Inr \<lparr>fs = sample_desktop, move_count = [], out = []\<rparr>
   \<and> is_file sample_desktop ''README'' \<and> ''README'' \<notin> set IGNORED_FILES
   \<and> \<not> startswith ''README'' ''.''
   \<and> process_item \<lparr>fs = sample_desktop, move_count = [], out = []\<rparr> ''README''
      \<noteq> Inr \<lparr>fs = sample_desktop, move_count = [], out = []\<rparr>
   \<and> MoveFile ''README'' ''Others'' ''README''
        \<in> set (journal (fs (reached (organize_desktop sample_desktop))))"
proof -
  let ?s = "\<lparr>fs = sample_desktop, move_count = [], out = []\<rparr>"
  note step = skipped_exactly_when_filtered [THEN conjunct1]
  have ignored: "''.DS_Store'' \<in> set IGNORED_FILES" by (simp add: IGNORED_FILES_def)
  have folder: "\<not> is_file (fs ?s) ''Images''" by (simp add: is_file_def sample_desktop_def)
  have readme: "is_file sample_desktop ''README''" "''README'' \<notin> set IGNORED_FILES"
    "\<not> startswith ''README'' ''.''"
    by (simp_all add: is_file_def sample_desktop_def IGNORED_FILES_def startswith_def)
  from ignored have 1: "process_item ?s ''.DS_Store'' = Inr ?s"
    using step [of ?s "''.DS_Store''"] by simp
  from folder have 2: "process_item ?s ''Images'' = Inr ?s"
    using step [of ?s "''Images''"] by simp
  from readme have 3: "process_item ?s ''README'' \<noteq> Inr ?s"
    using step [of ?s "''README''"] by simp
  have 4: "MoveFile ''README'' ''Others'' ''README''
        \<in> set (journal (fs (reached (organize_desktop sample_desktop))))"
    by (simp add: sample_run reached_def)
  from 1 2 readme 3 4 show ?thesis by (intro conjI)
qed













lemma count_of_increment:
  "count_of (increment counts c) c' = count_of counts c' + (if c' = c then 1 else 0)"
  by (induction counts c rule: increment.induct) (auto simp: count_of_def)



lemma process_item_journal:
  assumes "process_item s n = Inr s'"
  shows "\<exists>pre post. journal (fs s') = journal (fs s) @ pre @ post
    \<and> set pre \<subseteq> {CreateFolder (category_of n)}
    \<and> (post = [] \<and> move_count s' = move_count s
          \<and> (s' = s \<or> out s' = out s @ [ErrorMoving n (MoveError n)])
        \<or> (\<exists>u. post = [LeaveCopy n (category_of n) u]) \<and> move_count s' = move_count s
          \<and> out s' = out s @ [ErrorMoving n (MoveError n)]
        \<or> (\<exists>u. post = [MoveFile n (category_of n) u]
              \<and> out s' = out s @ [Moved n (category_of n) u])
          \<and> move_count s' = increment (move_count s) (category_of n))"
proof (cases rule: process_item_cases [of s n])
  case skipped
  with assms have "s' = s" by simp
  then have "journal (fs s') = journal (fs s) @ [] @ []
    \<and> set [] \<subseteq> {CreateFolder (category_of n)}
    \<and> ([] = [] \<and> move_count s' = move_count s
          \<and> (s' = s \<or> out s' = out s @ [ErrorMoving n (MoveError n)])
        \<or> (\<exists>u. [] = [LeaveCopy n (category_of n) u]) \<and> move_count s' = move_count s
          \<and> out s' = out s @ [ErrorMoving n (MoveError n)]
        \<or> (\<exists>u. [] = [MoveFile n (category_of n) u]
              \<and> out s' = out s @ [Moved n (category_of n) u])
          \<and> move_count s' = increment (move_count s) (category_of n))"
    by simp
  then show ?thesis by (intro exI)
next
  case (mkdir_failed e)
  with assms show ?thesis by simp
next
  case (probe_failed f1 e)
  with assms show ?thesis by simp
next
  case (move_failed f1 u)
  from mkdir_journal [OF move_failed(2)] obtain pre
    where pre: "journal f1 = journal (fs s) @ pre" "set pre \<subseteq> {CreateFolder (category_of n)}"
    by blast
  from move_failed(6) assms
  have s': "s' = s\<lparr>fs := f1, out := out s @ [ErrorMoving n (MoveError n)]\<rparr>" by simp
  with pre have "journal (fs s') = journal (fs s) @ pre @ []
    \<and> set pre \<subseteq> {CreateFolder (category_of n)}
    \<and> ([] = [] \<and> move_count s' = move_count s
          \<and> (s' = s \<or> out s' = out s @ [ErrorMoving n (MoveError n)])
        \<or> (\<exists>u. [] = [LeaveCopy n (category_of n) u]) \<and> move_count s' = move_count s
          \<and> out s' = out s @ [ErrorMoving n (MoveError n)]
        \<or> (\<exists>u. [] = [MoveFile n (category_of n) u]
              \<and> out s' = out s @ [Moved n (category_of n) u])
          \<and> move_count s' = increment (move_count s) (category_of n))"
    by simp
  then show ?thesis by (intro exI)
next
  case (copy_left f1 u)
  from mkdir_journal [OF copy_left(2)] obtain pre
    where pre: "journal f1 = journal (fs s) @ pre" "set pre \<subseteq> {CreateFolder (category_of n)}"
    by blast
  let ?post = "[LeaveCopy n (category_of n) u]"
  from copy_left(6) assms
  have s': "s' = s\<lparr>fs := f1\<lparr>contents := (contents f1)(category_of n := u # contents f1 (category_of n)),
                      dangling := (dangling f1)(category_of n :=
                        removeAll u (dangling f1 (category_of n))),
                      journal := journal f1 @ [LeaveCopy n (category_of n) u]\<rparr>,
                out := out s @ [ErrorMoving n (MoveError n)]\<rparr>"
    by simp
  with pre have "journal (fs s') = journal (fs s) @ pre @ ?post
    \<and> set pre \<subseteq> {CreateFolder (category_of n)}
    \<and> (?post = [] \<and> move_count s' = move_count s
          \<and> (s' = s \<or> out s' = out s @ [ErrorMoving n (MoveError n)])
        \<or> (\<exists>u. ?post = [LeaveCopy n (category_of n) u]) \<and> move_count s' = move_count s
          \<and> out s' = out s @ [ErrorMoving n (MoveError n)]
        \<or> (\<exists>u. ?post = [MoveFile n (category_of n) u]
              \<and> out s' = out s @ [Moved n (category_of n) u])
          \<and> move_count s' = increment (move_count s) (category_of n))"
    by simp
  then show ?thesis by (intro exI)
next
  case (moved f1 u)
  from mkdir_journal [OF moved(2)] obtain pre
    where pre: "journal f1 = journal (fs s) @ pre" "set pre \<subseteq> {CreateFolder (category_of n)}"
    by blast
  let ?post = "[MoveFile n (category_of n) u]"
  from moved(5) assms
  have s': "s' = s\<lparr>fs := f1\<lparr>entries := filter (\<lambda>(m, k). m \<noteq> n) (entries f1),
                      contents := (contents f1)(category_of n := u # contents f1 (category_of n)),
                      dangling := (dangling f1)(category_of n :=
                        removeAll u (dangling f1 (category_of n))),
                      journal := journal f1 @ [MoveFile n (category_of n) u]\<rparr>,
                move_count := increment (move_count s) (category_of n),
                out := out s @ [Moved n (category_of n) u]\<rparr>"
    by simp
  with pre have "journal (fs s') = journal (fs s) @ pre @ ?post
    \<and> set pre \<subseteq> {CreateFolder (category_of n)}
    \<and> (?post = [] \<and> move_count s' = move_count s
          \<and> (s' = s \<or> out s' = out s @ [ErrorMoving n (MoveError n)])
        \<or> (\<exists>u. ?post = [LeaveCopy n (category_of n) u]) \<and> move_count s' = move_count s
          \<and> out s' = out s @ [ErrorMoving n (MoveError n)]
        \<or> (\<exists>u. ?post = [MoveFile n (category_of n) u]
              \<and> out s' = out s @ [Moved n (category_of n) u])
          \<and> move_count s' = increment (move_count s) (category_of n))"
    by simp
  then show ?thesis by (intro exI)
qed






lemma moved_into_append: "moved_into (a @ b) c = moved_into a c + moved_into b c"
  by (simp add: moved_into_def)

lemma moved_append: "moved (a @ b) = moved a + moved b"
  by (simp add: moved_def)

lemma moved_into_folders: "set pre \<subseteq> {CreateFolder c} \<Longrightarrow> moved_into pre c' = 0"
  by (induction pre) (auto simp: moved_into_def)

lemma moved_folders: "set pre \<subseteq> {CreateFolder c} \<Longrightarrow> moved pre = 0"
  by (induction pre) (auto simp: moved_def)

lemma keys_increment: "fst ` set (increment counts c) = insert c (fst ` set counts)"
  by (induction counts c rule: increment.induct) auto

lemma distinct_increment:
  "distinct (map fst counts) \<Longrightarrow> distinct (map fst (increment counts c))"
proof (induction counts c rule: increment.induct)
  case (1 category)
  then show ?case by simp
next
  case (2 c n rest category)
  then show ?case using keys_increment [of rest category] by auto
qed

lemma positive_increment:
  "\<forall>(k, n) \<in> set counts. 0 < n \<Longrightarrow> \<forall>(k, n) \<in> set (increment counts c). 0 < n"
  by (induction counts c rule: increment.induct) auto

lemma total_increment: "sum_list (map snd (increment counts c)) = sum_list (map snd counts) + 1"
  by (induction counts c rule: increment.induct) auto

lemma process_item_tally:
  assumes "process_item s n = Inr s'"
  shows "\<exists>acts lines. journal (fs s') = journal (fs s) @ acts \<and> out s' = out s @ lines
    \<and> (\<forall>l \<in> set lines. (\<exists>m c u. l = Moved m c u) \<or> (\<exists>m e. l = ErrorMoving m e))
    \<and> (\<forall>c. count_of (move_count s') c = count_of (move_count s) c + moved_into acts c)
    \<and> sum_list (map snd (move_count s')) = sum_list (map snd (move_count s)) + moved acts
    \<and> (distinct (map fst (move_count s)) \<longrightarrow> distinct (map fst (move_count s')))
    \<and> ((\<forall>(k, n) \<in> set (move_count s). 0 < n) \<longrightarrow> (\<forall>(k, n) \<in> set (move_count s'). 0 < n))"
proof -
  let ?c = "category_of n"
  from process_item_journal [OF assms] obtain pre post
    where j: "journal (fs s') = journal (fs s) @ pre @ post"
      "set pre \<subseteq> {CreateFolder ?c}"
      "post = [] \<and> move_count s' = move_count s
          \<and> (s' = s \<or> out s' = out s @ [ErrorMoving n (MoveError n)])
        \<or> (\<exists>u. post = [LeaveCopy n ?c u]) \<and> move_count s' = move_count s
          \<and> out s' = out s @ [ErrorMoving n (MoveError n)]
        \<or> (\<exists>u. post = [MoveFile n ?c u] \<and> out s' = out s @ [Moved n ?c u])
          \<and> move_count s' = increment (move_count s) ?c"
    by (elim exE conjE) (rule that)
  from j(2) have pre: "moved_into pre c = 0" "moved pre = 0" for c
    by (simp_all add: moved_into_folders moved_folders)
  from j(3) consider
      (idle) lines where "post = []" "move_count s' = move_count s" "out s' = out s @ lines"
        "lines = [] \<or> lines = [ErrorMoving n (MoveError n)]"
    | (copy) u where "post = [LeaveCopy n ?c u]" "move_count s' = move_count s"
        "out s' = out s @ [ErrorMoving n (MoveError n)]"
    | (move) u where "post = [MoveFile n ?c u]" "out s' = out s @ [Moved n ?c u]"
        "move_count s' = increment (move_count s) ?c"
    by auto
  then show ?thesis
  proof cases
    case (idle lines)
    from idle(4) have shape: "\<forall>l \<in> set lines. (\<exists>m c u. l = Moved m c u) \<or> (\<exists>m e. l = ErrorMoving m e)"
      by auto
    from j(1) idle(1) have 1: "journal (fs s') = journal (fs s) @ pre" by simp
    have "journal (fs s') = journal (fs s) @ pre \<and> out s' = out s @ lines
      \<and> (\<forall>l \<in> set lines. (\<exists>m c u. l = Moved m c u) \<or> (\<exists>m e. l = ErrorMoving m e))
      \<and> (\<forall>c. count_of (move_count s') c = count_of (move_count s) c + moved_into pre c)
      \<and> sum_list (map snd (move_count s')) = sum_list (map snd (move_count s)) + moved pre
      \<and> (distinct (map fst (move_count s)) \<longrightarrow> distinct (map fst (move_count s')))
      \<and> ((\<forall>(k, n) \<in> set (move_count s). 0 < n) \<longrightarrow> (\<forall>(k, n) \<in> set (move_count s'). 0 < n))"
      using 1 idle(3) shape by (simp add: idle(2) pre)
    then show ?thesis by (intro exI [of _ pre] exI [of _ lines])
  next
    case (copy u)
    let ?acts = "pre @ [LeaveCopy n ?c u]"
    let ?lines = "[ErrorMoving n (MoveError n)]"
    from j(1) copy(1) have 1: "journal (fs s') = journal (fs s) @ ?acts" by simp
    have into: "moved_into ?acts c = 0" for c
      by (simp add: moved_into_append pre) (simp add: moved_into_def)
    have total: "moved ?acts = 0"
      by (simp add: moved_append pre) (simp add: moved_def)
    have "journal (fs s') = journal (fs s) @ ?acts \<and> out s' = out s @ ?lines
      \<and> (\<forall>l \<in> set ?lines. (\<exists>m c u. l = Moved m c u) \<or> (\<exists>m e. l = ErrorMoving m e))
      \<and> (\<forall>c. count_of (move_count s') c = count_of (move_count s) c + moved_into ?acts c)
      \<and> sum_list (map snd (move_count s')) = sum_list (map snd (move_count s)) + moved ?acts
      \<and> (distinct (map fst (move_count s)) \<longrightarrow> distinct (map fst (move_count s')))
      \<and> ((\<forall>(k, n) \<in> set (move_count s). 0 < n) \<longrightarrow> (\<forall>(k, n) \<in> set (move_count s'). 0 < n))"
      using 1 copy(3) by (simp add: copy(2) into total)
    then show ?thesis by (intro exI [of _ ?acts] exI [of _ ?lines])
  next
    case (move u)
    let ?acts = "pre @ [MoveFile n ?c u]"
    let ?lines = "[Moved n ?c u]"
    from j(1) move(1) have 1: "journal (fs s') = journal (fs s) @ ?acts" by simp
    have into: "moved_into ?acts c = (if c = ?c then 1 else 0)" for c
      by (simp add: moved_into_append pre) (simp add: moved_into_def)
    have total: "moved ?acts = 1"
      by (simp add: moved_append pre) (simp add: moved_def)
    have "journal (fs s') = journal (fs s) @ ?acts \<and> out s' = out s @ ?lines
      \<and> (\<forall>l \<in> set ?lines. (\<exists>m c u. l = Moved m c u) \<or> (\<exists>m e. l = ErrorMoving m e))
      \<and> (\<forall>c. count_of (move_count s') c = count_of (move_count s) c + moved_into ?acts c)
      \<and> sum_list (map snd (move_count s')) = sum_list (map snd (move_count s)) + moved ?acts
      \<and> (distinct (map fst (move_count s)) \<longrightarrow> distinct (map fst (move_count s')))
      \<and> ((\<forall>(k, n) \<in> set (move_count s). 0 < n) \<longrightarrow> (\<forall>(k, n) \<in> set (move_count s'). 0 < n))"
      using 1 move(2)
      by (simp add: move(3) into total count_of_increment total_increment distinct_increment
          positive_increment)
    then show ?thesis by (intro exI [of _ ?acts] exI [of _ ?lines])
  qed
qed

lemma process_items_tally:
  "process_items s items = Inr s'
    \<Longrightarrow> \<exists>acts lines. journal (fs s') = journal (fs s) @ acts \<and> out s' = out s @ lines
      \<and> (\<forall>l \<in> set lines. (\<exists>m c u. l = Moved m c u) \<or> (\<exists>m e. l = ErrorMoving m e))
      \<and> (\<forall>c. count_of (move_count s') c = count_of (move_count s) c + moved_into acts c)
      \<and> sum_list (map snd (move_count s')) = sum_list (map snd (move_count s)) + moved acts
      \<and> (distinct (map fst (move_count s)) \<longrightarrow> distinct (map fst (move_count s')))
      \<and> ((\<forall>(k, n) \<in> set (move_count s). 0 < n) \<longrightarrow> (\<forall>(k, n) \<in> set (move_count s'). 0 < n))"
proof (induction items arbitrary: s)
  case Nil
  then have "journal (fs s') = journal (fs s) @ [] \<and> out s' = out s @ []
    \<and> (\<forall>l \<in> set []. (\<exists>m c u. l = Moved m c u) \<or> (\<exists>m e. l = ErrorMoving m e))
    \<and> (\<forall>c. count_of (move_count s') c = count_of (move_count s) c + moved_into [] c)
    \<and> sum_list (map snd (move_count s')) = sum_list (map snd (move_count s)) + moved []
    \<and> (distinct (map fst (move_count s)) \<longrightarrow> distinct (map fst (move_count s')))
    \<and> ((\<forall>(k, n) \<in> set (move_count s). 0 < n) \<longrightarrow> (\<forall>(k, n) \<in> set (move_count s'). 0 < n))"
    by (simp add: moved_into_def moved_def)
  then show ?case by (intro exI [of _ "[]"])
next
  case (Cons item items)
  from Cons.prems obtain s1 where s1: "process_item s item = Inr s1"
    and rest: "process_items s1 items = Inr s'"
    by (auto split: sum.splits)
  from process_item_tally [OF s1] obtain a1 l1 where 1:
    "journal (fs s1) = journal (fs s) @ a1" "out s1 = out s @ l1"
    "\<forall>l \<in> set l1. (\<exists>m c u. l = Moved m c u) \<or> (\<exists>m e. l = ErrorMoving m e)"
    "\<forall>c. count_of (move_count s1) c = count_of (move_count s) c + moved_into a1 c"
    "sum_list (map snd (move_count s1)) = sum_list (map snd (move_count s)) + moved a1"
    "distinct (map fst (move_count s)) \<longrightarrow> distinct (map fst (move_count s1))"
    "(\<forall>(k, n) \<in> set (move_count s). 0 < n) \<longrightarrow> (\<forall>(k, n) \<in> set (move_count s1). 0 < n)"
    by (elim exE conjE) (rule that)
  from Cons.IH [OF rest] obtain a2 l2 where 2:
    "journal (fs s') = journal (fs s1) @ a2" "out s' = out s1 @ l2"
    "\<forall>l \<in> set l2. (\<exists>m c u. l = Moved m c u) \<or> (\<exists>m e. l = ErrorMoving m e)"
    "\<forall>c. count_of (move_count s') c = count_of (move_count s1) c + moved_into a2 c"
    "sum_list (map snd (move_count s')) = sum_list (map snd (move_count s1)) + moved a2"
    "distinct (map fst (move_count s1)) \<longrightarrow> distinct (map fst (move_count s'))"
    "(\<forall>(k, n) \<in> set (move_count s1). 0 < n) \<longrightarrow> (\<forall>(k, n) \<in> set (move_count s'). 0 < n)"
    by (elim exE conjE) (rule that)
  have "journal (fs s') = journal (fs s) @ (a1 @ a2)" using 1(1) 2(1) by simp
  moreover have "out s' = out s @ (l1 @ l2)" using 1(2) 2(2) by simp
  moreover have "\<forall>l \<in> set (l1 @ l2). (\<exists>m c u. l = Moved m c u) \<or> (\<exists>m e. l = ErrorMoving m e)"
    using 1(3) 2(3) by auto
  moreover have "\<forall>c. count_of (move_count s') c
      = count_of (move_count s) c + moved_into (a1 @ a2) c"
    using 1(4) 2(4) by (simp add: moved_into_append)
  moreover have "sum_list (map snd (move_count s'))
      = sum_list (map snd (move_count s)) + moved (a1 @ a2)"
    using 1(5) 2(5) by (simp add: moved_append)
  moreover have "distinct (map fst (move_count s)) \<longrightarrow> distinct (map fst (move_count s'))"
    using 1(6) 2(6) by blast
  moreover have "(\<forall>(k, n) \<in> set (move_count s). 0 < n)
      \<longrightarrow> (\<forall>(k, n) \<in> set (move_count s'). 0 < n)"
    using 1(7) 2(7) by blast
  ultimately show ?case by (intro exI [of _ "a1 @ a2"] exI [of _ "l1 @ l2"] conjI)
qed


lemma count_of_key:
  "distinct (map fst counts) \<Longrightarrow> (c, n) \<in> set counts \<Longrightarrow> count_of counts c = n"
  by (simp add: count_of_def)

lemma count_of_missing: "c \<notin> fst ` set counts \<Longrightarrow> count_of counts c = 0"
proof -
  assume "c \<notin> fst ` set counts"
  then have "map_of counts c = None" by (simp add: map_of_eq_None_iff)
  then show ?thesis by (simp add: count_of_def)
qed

lemma counted_keys:
  assumes "distinct (map fst counts)" and "\<forall>(k, n) \<in> set counts. 0 < n"
  shows "{c. 0 < count_of counts c} = fst ` set counts"
proof (intro equalityI subsetI)
  fix c assume "c \<in> {c. 0 < count_of counts c}"
  then show "c \<in> fst ` set counts" using count_of_missing [of c counts] by auto
next
  fix c assume "c \<in> fst ` set counts"
  then obtain n where "(c, n) \<in> set counts" by auto
  with assms show "c \<in> {c. 0 < count_of counts c}" by (auto simp: count_of_key)
qed

lemma values_by_key:
  assumes "distinct (map fst counts)"
  shows "map snd counts = map (count_of counts) (map fst counts)"
proof -
  have "snd x = count_of counts (fst x)" if "x \<in> set counts" for x
    using that assms count_of_key [of counts "fst x" "snd x"] by simp
  then show ?thesis by simp
qed

lemma summary_lines:
  assumes keys: "distinct (map fst counts)" and positive: "\<forall>(k, n) \<in> set counts. 0 < n"
  shows "\<exists>cs. sorted cs \<and> distinct cs \<and> set cs = {c. 0 < count_of counts c}
    \<and> sum_list (map snd counts) = sum_list (map (count_of counts) cs)
    \<and> summary counts =
        (if sum_list (map snd counts) = 0 then [NoFilesMoved]
         else map (\<lambda>c. CategoryLine c (count_of counts c)) cs
              @ [TotalLine (sum_list (map snd counts))])"
proof -
  let ?cs = "sort (map fst counts)"
  have "sorted ?cs" by simp
  moreover from keys have d: "distinct ?cs" by simp
  moreover have "set ?cs = {c. 0 < count_of counts c}"
    using counted_keys [OF keys positive] by simp
  moreover have "sum_list (map snd counts) = sum_list (map (count_of counts) ?cs)"
  proof -
    have "sum_list (map snd counts) = sum_list (map (count_of counts) (map fst counts))"
      by (subst values_by_key [OF keys]) (rule refl)
    also have "\<dots> = sum (count_of counts) (set (map fst counts))"
      using keys by (rule sum_list_distinct_conv_sum_set)
    also have "\<dots> = sum (count_of counts) (set ?cs)" by simp
    also have "\<dots> = sum_list (map (count_of counts) ?cs)"
      using d by (rule sum_list_distinct_conv_sum_set [symmetric])
    finally show ?thesis .
  qed
  moreover have "summary counts =
        (if sum_list (map snd counts) = 0 then [NoFilesMoved]
         else map (\<lambda>c. CategoryLine c (count_of counts c)) ?cs
              @ [TotalLine (sum_list (map snd counts))])"
    by (simp add: summary_def Let_def)
  ultimately show ?thesis by blast
qed

text \<open>
  Claim C6. When a run on an existing desktop has processed all entries, its output is the
  heading, the per-file lines and the summary. If no move succeeded the summary is the
  line "no files were moved"; otherwise it lists exactly the categories into which at
  least one file was moved, in increasing order of their names and each once, each with
  the number of files moved into it, and ends with the total, which is the number of moves
  and the sum of the listed counts.
\<close>

theorem summary_reports_successful_moves:
  "desktop_exists f \<and> organize_desktop f = Inr s \<longrightarrow>
     (\<exists>acts lines cs.
        journal (fs s) = journal f @ acts
        \<and> (\<forall>l \<in> set lines. (\<exists>m c u. l = Moved m c u) \<or> (\<exists>m e. l = ErrorMoving m e))
        \<and> sorted cs \<and> distinct cs \<and> set cs = {c. 0 < moved_into acts c}
        \<and> moved acts = sum_list (map (moved_into acts) cs)
        \<and> out s = Organizing # lines @ [Rule, SummaryTitle, Rule]
            @ (if moved acts = 0 then [NoFilesMoved]
               else map (\<lambda>c. CategoryLine c (moved_into acts c)) cs @ [TotalLine (moved acts)]))"
proof
  assume a: "desktop_exists f \<and> organize_desktop f = Inr s"
  let ?init = "\<lparr>fs = f, move_count = [], out = [Organizing]\<rparr>"
  from a obtain s1 where loop: "process_items ?init (map fst (entries f)) = Inr s1"
    and s: "s = s1\<lparr>out := out s1 @ [Rule, SummaryTitle, Rule] @ summary (move_count s1)\<rparr>"
    by (auto simp: organize_desktop_def split: sum.splits if_splits)
  from process_items_tally [OF loop] obtain acts lines where t:
    "journal (fs s1) = journal f @ acts" "out s1 = [Organizing] @ lines"
    "\<forall>l \<in> set lines. (\<exists>m c u. l = Moved m c u) \<or> (\<exists>m e. l = ErrorMoving m e)"
    "\<forall>c. count_of (move_count s1) c = moved_into acts c"
    "sum_list (map snd (move_count s1)) = moved acts"
    "distinct (map fst (move_count s1))"
    "\<forall>(k, n) \<in> set (move_count s1). 0 < n"
    by (auto simp: count_of_def)
  from t(4) have counts: "count_of (move_count s1) = moved_into acts" by (simp add: fun_eq_iff)
  from summary_lines [OF t(6) t(7)] obtain cs where cs:
    "sorted cs" "distinct cs" "set cs = {c. 0 < moved_into acts c}"
    "moved acts = sum_list (map (moved_into acts) cs)"
    "summary (move_count s1) =
        (if moved acts = 0 then [NoFilesMoved]
         else map (\<lambda>c. CategoryLine c (moved_into acts c)) cs @ [TotalLine (moved acts)])"
    unfolding counts t(5) by blast
  from s t(1) have "journal (fs s) = journal f @ acts" by simp
  moreover from s t(2) cs(5)
  have "out s = Organizing # lines @ [Rule, SummaryTitle, Rule]
            @ (if moved acts = 0 then [NoFilesMoved]
               else map (\<lambda>c. CategoryLine c (moved_into acts c)) cs @ [TotalLine (moved acts)])"
    by simp
  ultimately show "\<exists>acts lines cs.
        journal (fs s) = journal f @ acts
        \<and> (\<forall>l \<in> set lines. (\<exists>m c u. l = Moved m c u) \<or> (\<exists>m e. l = ErrorMoving m e))
        \<and> sorted cs \<and> distinct cs \<and> set cs = {c. 0 < moved_into acts c}
        \<and> moved acts = sum_list (map (moved_into acts) cs)
        \<and> out s = Organizing # lines @ [Rule, SummaryTitle, Rule]
            @ (if moved acts = 0 then [NoFilesMoved]
               else map (\<lambda>c. CategoryLine c (moved_into acts c)) cs @ [TotalLine (moved acts)])"
    using t(3) cs(1-4) by blast
qed

theorem summary_reports_successful_moves_witness:
  "desktop_exists sample_desktop
   \<and> (\<exists>s. organize_desktop sample_desktop = Inr s
        \<and> (\<exists>acts lines cs.
              journal (fs s) = journal sample_desktop @ acts
              \<and> (\<forall>l \<in> set lines. (\<exists>m c u. l = Moved m c u) \<or> (\<exists>m e. l = ErrorMoving m e))
              \<and> sorted cs \<and> distinct cs \<and> set cs = {c. 0 < moved_into acts c}
              \<and> moved acts = sum_list (map (moved_into acts) cs)
              \<and> out s = Organizing # lines @ [Rule, SummaryTitle, Rule]
                  @ (if moved acts = 0 then [NoFilesMoved]
                     else map (\<lambda>c. CategoryLine c (moved_into acts c)) cs
                          @ [TotalLine (moved acts)])))"
proof -
  have d: "desktop_exists sample_desktop" by (simp add: sample_desktop_def)
  obtain s where s: "organize_desktop sample_desktop = Inr s" by (rule that [OF sample_run])
  from d s have "desktop_exists sample_desktop \<and> organize_desktop sample_desktop = Inr s" ..
  with summary_reports_successful_moves [of sample_desktop s]
  have "\<exists>acts lines cs.
              journal (fs s) = journal sample_desktop @ acts
              \<and> (\<forall>l \<in> set lines. (\<exists>m c u. l = Moved m c u) \<or> (\<exists>m e. l = ErrorMoving m e))
              \<and> sorted cs \<and> distinct cs \<and> set cs = {c. 0 < moved_into acts c}
              \<and> moved acts = sum_list (map (moved_into acts) cs)
              \<and> out s = Organizing # lines @ [Rule, SummaryTitle, Rule]
                  @ (if moved acts = 0 then [NoFilesMoved]
                     else map (\<lambda>c. CategoryLine c (moved_into acts c)) cs
                          @ [TotalLine (moved acts)])"
    by (rule mp)
  with s have "\<exists>s. organize_desktop sample_desktop = Inr s
        \<and> (\<exists>acts lines cs.
              journal (fs s) = journal sample_desktop @ acts
              \<and> (\<forall>l \<in> set lines. (\<exists>m c u. l = Moved m c u) \<or> (\<exists>m e. l = ErrorMoving m e))
              \<and> sorted cs \<and> distinct cs \<and> set cs = {c. 0 < moved_into acts c}
              \<and> moved acts = sum_list (map (moved_into acts) cs)
              \<and> out s = Organizing # lines @ [Rule, SummaryTitle, Rule]
                  @ (if moved acts = 0 then [NoFilesMoved]
                     else map (\<lambda>c. CategoryLine c (moved_into acts c)) cs
                          @ [TotalLine (moved acts)]))"
    by (intro exI [of _ s] conjI)
  with d show ?thesis ..
qed


text \<open>
  Claim C4 (defect of the code). The claim asks that exactly one failing file among the
  eligible ones leaves the others moved and counted. The \<^verbatim>\<open>try\<close> guards the move only:
  the folder creation before it is not guarded. On a desktop with the children
  \<^verbatim>\<open>locked.pdf\<close> (its move fails), \<^verbatim>\<open>b.jpg\<close> and a regular file named \<^verbatim>\<open>Images\<close>, in this
  order, three files are eligible and exactly one of them fails to move; the failure is
  reported, then the folder creation for \<^verbatim>\<open>b.jpg\<close> raises \<^verbatim>\<open>FileExistsError\<close>, which leaves
  the run: no file is moved, \<^verbatim>\<open>b.jpg\<close> stays on the desktop, and neither a summary nor a
  total is printed.
\<close>

theorem folder_error_stops_run:
  "desktop_exists blocked_desktop \<and> listable blocked_desktop
   \<and> eligible_files blocked_desktop = [''locked.pdf'', ''b.jpg'', ''Images'']
   \<and> failing_files blocked_desktop = [''locked.pdf'']
   \<and> organize_desktop blocked_desktop
        = Inl (FileExistsError ''Images'', reached (organize_desktop blocked_desktop))
   \<and> moved (journal (fs (reached (organize_desktop blocked_desktop)))) = 0
   \<and> is_file (fs (reached (organize_desktop blocked_desktop))) ''b.jpg''
   \<and> out (reached (organize_desktop blocked_desktop))
        = [Organizing, ErrorMoving ''locked.pdf'' (MoveError ''locked.pdf'')]"
proof (intro conjI)
  show "desktop_exists blocked_desktop" by (simp add: blocked_desktop_def)
  show "listable blocked_desktop" by (simp add: blocked_desktop_def)
  show files: "eligible_files blocked_desktop = [''locked.pdf'', ''b.jpg'', ''Images'']"
    by (simp add: eligible_files_def eligible_def is_file_def blocked_desktop_def
        IGNORED_FILES_def startswith_def)
  show "failing_files blocked_desktop = [''locked.pdf'']"
    by (simp add: failing_files_def files) (simp add: blocked_desktop_def)
  show "organize_desktop blocked_desktop
        = Inl (FileExistsError ''Images'', reached (organize_desktop blocked_desktop))"
    by (simp add: blocked_run reached_simps)
  show "moved (journal (fs (reached (organize_desktop blocked_desktop)))) = 0"
    by (simp add: blocked_run reached_simps moved_def)
  show "is_file (fs (reached (organize_desktop blocked_desktop))) ''b.jpg''"
    by (simp add: blocked_run reached_simps is_file_def)
  show "out (reached (organize_desktop blocked_desktop))
        = [Organizing, ErrorMoving ''locked.pdf'' (MoveError ''locked.pdf'')]"
    by (simp add: blocked_run reached_simps)
qed

text \<open>
  Where a first run returns, a second run can still change the tree without moving
  anything: the locked file is copied again, under the next free name.
\<close>

lemma locked_rerun:
  "journal (fs (reached (organize_desktop (fs (reached (organize_desktop locked_desktop))))))
      = [LeaveCopy ''locked.txt'' ''Documents'' ''locked.txt'',
         LeaveCopy ''locked.txt'' ''Documents'' ''locked(1).txt'']
   \<and> contents (fs (reached (organize_desktop (fs (reached (organize_desktop locked_desktop))))))
        ''Documents'' = [''locked(1).txt'', ''locked.txt'']
   \<and> moved (journal (fs (reached (organize_desktop
        (fs (reached (organize_desktop locked_desktop))))))) = 0"
  by (simp add: locked_run reached_simps) (simp add: step_simps reached_simps moved_def)

text \<open>
  Claim C7 (defect of the code). The claim asks that a second run, nothing else having
  touched the directory, moves nothing and reports that there was nothing to organize. On
  the desktop with the children \<^verbatim>\<open>locked.pdf\<close> (its move fails), \<^verbatim>\<open>b.jpg\<close> and a regular file
  named \<^verbatim>\<open>Images\<close>, the unguarded folder creation for \<^verbatim>\<open>b.jpg\<close> raises
  \<^verbatim>\<open>FileExistsError\<close> in the first run and again in the second: both runs are left by the
  exception, the script ends with status 1 both times, \<^verbatim>\<open>b.jpg\<close> is still an organizable
  file on the desktop, and the second run prints no summary, hence not the line "no files
  were moved".
\<close>

theorem second_run_stopped_by_folder_error:
  "desktop_exists blocked_desktop \<and> listable blocked_desktop
   \<and> organize_desktop blocked_desktop
        = Inl (FileExistsError ''Images'', reached (organize_desktop blocked_desktop))
   \<and> organize_desktop (fs (reached (organize_desktop blocked_desktop)))
        = Inl (FileExistsError ''Images'',
               reached (organize_desktop (fs (reached (organize_desktop blocked_desktop)))))
   \<and> exit_status blocked_desktop = 1
   \<and> exit_status (fs (reached (organize_desktop blocked_desktop))) = 1
   \<and> eligible (fs (reached (organize_desktop (fs (reached (organize_desktop blocked_desktop))))))
        ''b.jpg''
   \<and> out (reached (organize_desktop (fs (reached (organize_desktop blocked_desktop)))))
        = [Organizing, ErrorMoving ''locked.pdf'' (MoveError ''locked.pdf'')]
   \<and> NoFilesMoved
        \<notin> set (out (reached (organize_desktop (fs (reached (organize_desktop blocked_desktop))))))"
proof (intro conjI)
  show "desktop_exists blocked_desktop" by (simp add: blocked_desktop_def)
  show "listable blocked_desktop" by (simp add: blocked_desktop_def)
  show "organize_desktop blocked_desktop
        = Inl (FileExistsError ''Images'', reached (organize_desktop blocked_desktop))"
    by (simp add: blocked_run reached_simps)
  show "organize_desktop (fs (reached (organize_desktop blocked_desktop)))
        = Inl (FileExistsError ''Images'',
               reached (organize_desktop (fs (reached (organize_desktop blocked_desktop)))))"
    by (simp only: blocked_rerun reached_simps)
  show "exit_status blocked_desktop = 1" by (simp add: exit_status_def blocked_run)
  show "exit_status (fs (reached (organize_desktop blocked_desktop))) = 1"
    by (simp add: exit_status_def blocked_rerun)
  show "eligible (fs (reached (organize_desktop (fs (reached (organize_desktop blocked_desktop))))))
        ''b.jpg''"
    by (simp only: blocked_rerun reached_simps)
      (simp add: blocked_left eligible_def is_file_def IGNORED_FILES_def startswith_def)
  show "out (reached (organize_desktop (fs (reached (organize_desktop blocked_desktop)))))
        = [Organizing, ErrorMoving ''locked.pdf'' (MoveError ''locked.pdf'')]"
    by (simp only: blocked_rerun reached_simps) (simp add: blocked_left)
  show "NoFilesMoved
        \<notin> set (out (reached (organize_desktop (fs (reached (organize_desktop blocked_desktop))))))"
    by (simp only: blocked_rerun reached_simps) (simp add: blocked_left)
qed


end
